theory Spec2Isabelle
  imports Complex_Main "HOL-Library.Log_Nat"
begin

section \<open>Data model (src/types.ts)\<close>

text \<open>
  JavaScript numbers are doubles. Grid coordinates and indices are integers, and on
  integers the arithmetic of doubles is exact as long as no result exceeds \<open>2^53\<close> in
  magnitude. Two sets of definitions follow: the functions under their own names compute
  over the unbounded integers, which is the source's arithmetic within that range; the
  functions with the suffix \<open>_fl\<close> round every result as a double does, and decide
  what the source computes beyond it. The fields of \<open>Point\<close> are \<open>x\<close> and \<open>y\<close> in the
  source; they are named \<open>px\<close> and \<open>py\<close> here so that \<open>x\<close> and \<open>y\<close> stay free for
  variables.
\<close>

record Point =
  px :: int
  py :: int

record Size =
  width :: int
  height :: int

datatype ToolType = Pencil | Eraser | Bucket | Picker | Move

text \<open>
  A JavaScript array of strings. An element is \<open>Some c\<close> for the string \<open>c\<close> and
  \<open>None\<close> for \<open>undefined\<close> (a hole), which is what a read outside the array
  gives and what a write beyond the end leaves in between.
\<close>

type_synonym PixelGrid = "string option list"

definition js_get :: "'a option list \<Rightarrow> int \<Rightarrow> 'a option" where
  "js_get xs i = (if 0 \<le> i \<and> i < int (length xs) then xs ! nat i else None)"

text \<open>
  \<open>xs[i] = v\<close>: inside the array the element is replaced, beyond the end the array is
  extended with holes, and a negative index sets a property that is no element.
\<close>

definition js_set :: "'a option list \<Rightarrow> int \<Rightarrow> 'a \<Rightarrow> 'a option list" where
  "js_set xs i v =
     (if i < 0 then xs
      else if i < int (length xs) then xs[nat i := Some v]
      else xs @ replicate (nat i - length xs) None @ [Some v])"

text \<open>The remainder operator \<open>%\<close>: the sign of the result is the sign of the dividend.\<close>

definition js_rem :: "int \<Rightarrow> int \<Rightarrow> int" where
  "js_rem a b = sgn a * (\<bar>a\<bar> mod \<bar>b\<bar>)"

section \<open>Geometry utilities (src/utils/pixelUtils.ts)\<close>

text \<open>
  Over the integers; the source's result wherever \<open>y * width\<close> and \<open>y * width + x\<close>
  are at most \<open>2^53\<close> in magnitude (lemma \<open>getIndex_fl_exact\<close>).
\<close>

definition getIndex :: "int \<Rightarrow> int \<Rightarrow> int \<Rightarrow> int" where
  "getIndex x y w = y * w + x"

text \<open>
  With \<open>width = 0\<close> the source computes \<open>NaN\<close> and an infinity, which are no grid
  coordinates: the model returns \<open>None\<close> there. The quotient is the exact one; the
  source's floor is the same for indices from 0 to \<open>2^53\<close> (lemma
  \<open>getCoords_fl_exact\<close>).
\<close>

definition getCoords :: "int \<Rightarrow> int \<Rightarrow> Point option" where
  "getCoords index w =
     (if w = 0 then None
      else Some \<lparr>px = js_rem index w, py = \<lfloor>real_of_int index / real_of_int w\<rfloor>\<rparr>)"

subsection \<open>Bresenham's line algorithm\<close>

text \<open>
  The body of \<open>while (true)\<close>. The loop has no bound of its own, so it is a partial
  function: \<open>None\<close> stands for a loop that never reaches its \<open>break\<close>. Over the
  integers; the source's loop for coordinates up to \<open>2^50\<close> in magnitude (lemma
  \<open>getLinePixels_fl_exact\<close>).
\<close>

partial_function (option) lineLoop ::
  "int \<Rightarrow> int \<Rightarrow> int \<Rightarrow> int \<Rightarrow> int \<Rightarrow> int \<Rightarrow> Point list \<Rightarrow> int \<Rightarrow> int \<Rightarrow> int \<Rightarrow> Point list option"
  where
  "lineLoop x1 y1 dx dy sx sy points x0 y0 err =
     (let points = points @ [\<lparr>px = x0, py = y0\<rparr>] in
      if x0 = x1 \<and> y0 = y1 then Some points
      else
        let e2 = 2 * err;
            (err, x0) = (if e2 > - dy then (err - dy, x0 + sx) else (err, x0));
            (err, y0) = (if e2 < dx then (err + dx, y0 + sy) else (err, y0))
        in lineLoop x1 y1 dx dy sx sy points x0 y0 err)"

declare lineLoop.simps [code]

definition getLinePixels :: "Point \<Rightarrow> Point \<Rightarrow> Point list option" where
  "getLinePixels start end =
     (let x0 = px start; y0 = py start; x1 = px end; y1 = py end;
          dx = \<bar>x1 - x0\<bar>; dy = \<bar>y1 - y0\<bar>;
          sx = (if x0 < x1 then 1 else - 1);
          sy = (if y0 < y1 then 1 else - 1);
          err = dx - dy
      in lineLoop x1 y1 dx dy sx sy [] x0 y0 err)"

subsection \<open>The arithmetic of doubles\<close>

text \<open>
  \<open>rne num den\<close> is the quotient \<open>num / den\<close> (for a positive \<open>den\<close>) rounded to the
  nearest integer, a tie going to the even one.
\<close>

definition rne :: "int \<Rightarrow> int \<Rightarrow> int" where
  "rne num den =
     (let q = num div den; r = num mod den
      in if 2 * r < den then q
         else if den < 2 * r then q + 1
         else if even q then q else q + 1)"

text \<open>
  The double nearest to an integer: itself up to \<open>2^53\<close>; beyond, the integer keeps its
  53 leading bits, rounded to nearest, a tie going to the even significand. The model has
  no infinities: it is the source's arithmetic for magnitudes below \<open>2^1023\<close>.
\<close>

definition fl :: "int \<Rightarrow> int" where
  "fl n =
     (if \<bar>n\<bar> \<le> 2 ^ 53 then n
      else let k = nat (bitlen \<bar>n\<bar> - 53) in sgn n * rne \<bar>n\<bar> (2 ^ k) * 2 ^ k)"

text \<open>
  \<open>a / b\<close> for integers that are doubles: the quotient rounded to 53 significant bits.
  \<open>quot_exp a b\<close> is the exponent \<open>e\<close> with \<open>2^e \<le> a / b < 2^(e+1)\<close>, for positive
  \<open>a\<close> and \<open>b\<close>. (Below the normal range the source keeps fewer bits; the floor of
  such a quotient is the same.)
\<close>

definition quot_exp :: "int \<Rightarrow> int \<Rightarrow> int" where
  "quot_exp a b = (if b \<le> a then bitlen (a div b) - 1 else - bitlen ((b - 1) div a))"

definition fdiv :: "int \<Rightarrow> int \<Rightarrow> real" where
  "fdiv i w =
     (if i = 0 then 0
      else
        let a = \<bar>i\<bar>; b = \<bar>w\<bar>;
            s = quot_exp a b - 52;
            v = (if 0 \<le> s then of_int (rne a (b * 2 ^ nat s) * 2 ^ nat s)
                 else of_int (rne (a * 2 ^ nat (- s)) b) / 2 ^ nat (- s))
        in of_int (sgn i * sgn w) * v)"

text \<open>
  The geometry utilities with every result rounded. The arguments are doubles already.
  \<open>%\<close> is exact on doubles.
\<close>

definition getIndex_fl :: "int \<Rightarrow> int \<Rightarrow> int \<Rightarrow> int" where
  "getIndex_fl x y w = fl (fl (y * w) + x)"

definition getCoords_fl :: "int \<Rightarrow> int \<Rightarrow> Point option" where
  "getCoords_fl index w =
     (if w = 0 then None
      else Some \<lparr>px = js_rem index w, py = \<lfloor>fdiv index w\<rfloor>\<rparr>)"




subsection \<open>Flood fill\<close>

text \<open>
  The body of \<open>while (queue.length > 0)\<close>. \<open>queue\<close> is the source's array in its own
  order: \<open>pop\<close> takes the last element and \<open>push\<close> appends. \<open>visited\<close> is the
  \<open>Set<number>\<close> of indices.
\<close>

function floodLoop ::
  "int \<Rightarrow> int \<Rightarrow> string \<Rightarrow> string \<Rightarrow> PixelGrid \<Rightarrow> Point list \<Rightarrow> int set \<Rightarrow> PixelGrid"
  where
  "floodLoop w h targetColor fillColor newPixels queue visited =
     (if queue = [] then newPixels
      else
        let p = last queue;
            queue = butlast queue;
            idx = getIndex (px p) (py p) w
        in if idx \<in> visited then floodLoop w h targetColor fillColor newPixels queue visited
           else
             let visited = insert idx visited
             in if js_get newPixels idx = Some targetColor then
                  let newPixels = js_set newPixels idx fillColor;
                      neighbors =
                        [\<lparr>px = px p + 1, py = py p\<rparr>,
                         \<lparr>px = px p - 1, py = py p\<rparr>,
                         \<lparr>px = px p, py = py p + 1\<rparr>,
                         \<lparr>px = px p, py = py p - 1\<rparr>];
                      queue = queue @
                        filter (\<lambda>n. px n \<ge> 0 \<and> px n < w \<and> py n \<ge> 0 \<and> py n < h) neighbors
                  in floodLoop w h targetColor fillColor newPixels queue visited
                else floodLoop w h targetColor fillColor newPixels queue visited)"
  by pat_completeness auto

text \<open>
  Every iteration either marks a new index inside the array as visited, or shortens
  the queue while no index of the array becomes unvisited.
\<close>

termination
proof (relation
    "(\<lambda>(w, h, t, f, np, q, v). card ({0 ..< int (length np)} - v)) <*mlex*>
     measure (\<lambda>(w, h, t, f, np, q, v). length q)", goal_cases)
  case 1
  show ?case by (simp add: wf_mlex)
next
  case (2 w h targetColor fillColor newPixels queue visited p queue' idx)
  then show ?case by (intro mlex_leq) simp_all
next
  case (3 w h targetColor fillColor newPixels queue visited p queue' idx visited' newPixels'
      neighbors queue'')
  have r: "0 \<le> idx \<and> idx < int (length newPixels)"
    using 3(7) by (simp add: js_get_def split: if_splits)
  then have len: "length newPixels' = length newPixels"
    using 3(8) by (simp add: js_set_def)
  have mem: "idx \<in> {0 ..< int (length newPixels)} - visited" using r 3(5) by simp
  have eq: "{0 ..< int (length newPixels)} - visited' =
      ({0 ..< int (length newPixels)} - visited) - {idx}"
    using 3(6) by blast
  have fin: "finite ({0 ..< int (length newPixels)} - visited)" by simp
  have "card ({0 ..< int (length newPixels)} - visited') <
      card ({0 ..< int (length newPixels)} - visited)"
    unfolding eq using fin mem by (rule card_Diff1_less)
  then show ?case using len by (intro mlex_less) simp
next
  case (4 w h targetColor fillColor newPixels queue visited p queue' idx visited')
  have "{0 ..< int (length newPixels)} - visited' \<subseteq> {0 ..< int (length newPixels)} - visited"
    using 4(6) by blast
  then have "card ({0 ..< int (length newPixels)} - visited') \<le>
      card ({0 ..< int (length newPixels)} - visited)"
    by (intro card_mono) simp_all
  then show ?case using 4(1,3) by (intro mlex_leq) simp_all
qed

declare floodLoop.simps [simp del]

definition floodFill :: "PixelGrid \<Rightarrow> Point \<Rightarrow> string \<Rightarrow> string \<Rightarrow> Size \<Rightarrow> PixelGrid" where
  "floodFill pixels start targetColor fillColor sz =
     (let w = width sz; h = height sz;
          startIndex = getIndex (px start) (py start) w
      in if startIndex < 0 \<or> startIndex \<ge> int (length pixels) then pixels
         else if js_get pixels startIndex = Some fillColor then pixels
         else if js_get pixels startIndex \<noteq> Some targetColor then pixels
         else floodLoop w h targetColor fillColor pixels [start] {})"

section \<open>Drawing on the canvas (src/components/Canvas.tsx)\<close>

text \<open>
  \<open>drawPixel\<close> closes over the canvas size, the tool and the colour, which are
  parameters here. \<open>[...currentPixels]\<close> copies the array; the model passes values.
\<close>

definition drawPixel :: "Size \<Rightarrow> ToolType \<Rightarrow> string \<Rightarrow> Point \<Rightarrow> PixelGrid \<Rightarrow> PixelGrid" where
  "drawPixel sz tool color point currentPixels =
     (if px point < 0 \<or> px point \<ge> width sz \<or> py point < 0 \<or> py point \<ge> height sz
      then currentPixels
      else
        let idx = getIndex (px point) (py point) (width sz);
            newPixels = currentPixels
        in if tool = Pencil then js_set newPixels idx color
           else if tool = Eraser then js_set newPixels idx ''transparent''
           else newPixels)"

text \<open>
  The drawing branch of \<open>handlePointerMove\<close>: the grid handed to \<open>onDraw\<close> when the
  pointer moves from \<open>lastDrawPoint\<close> to \<open>point\<close>.
\<close>

definition handlePointerMove ::
  "Size \<Rightarrow> ToolType \<Rightarrow> string \<Rightarrow> PixelGrid \<Rightarrow> Point \<Rightarrow> Point \<Rightarrow> PixelGrid option" where
  "handlePointerMove sz tool color pixels lastDrawPoint point =
     (case getLinePixels lastDrawPoint point of
        None \<Rightarrow> None
      | Some linePoints \<Rightarrow>
          Some (foldl (\<lambda>tempPixels p. drawPixel sz tool color p tempPixels) pixels linePoints))"

section \<open>Frame sequence (the App component)\<close>

text \<open>
  Frames hold a reference to their pixel array. The arrays live in \<open>heap\<close>, addressed
  by position; a new array is allocated at the end. The state variable \<open>size\<close> is
  \<open>gridSize\<close>, and the field \<open>id\<close> of a frame is \<open>fid\<close>.
\<close>

type_synonym addr = nat

record Frame =
  fid :: string
  pixels :: addr

record AppState =
  heap :: "PixelGrid list"
  gridSize :: Size
  frames :: "Frame list"
  currentFrameIdx :: int

datatype js_error = TypeError | RangeError

definition DEFAULT_SIZE :: int where
  "DEFAULT_SIZE = 32"

definition INITIAL_FRAME_ID :: string where
  "INITIAL_FRAME_ID = ''frame-0''"

text \<open>\<open>Array(n)\<close> throws a RangeError unless \<open>0 \<le> n < 2^32\<close>.\<close>

definition createEmptyGrid :: "int \<Rightarrow> int \<Rightarrow> js_error + PixelGrid" where
  "createEmptyGrid w h =
     (if w * h < 0 \<or> w * h \<ge> 2 ^ 32 then Inl RangeError
      else Inr (replicate (nat (w * h)) (Some ''transparent'')))"

text \<open>The decimal digits of a number, as a template literal prints them.\<close>

fun show_nat :: "nat \<Rightarrow> string" where
  "show_nat n =
     (if n < 10 then [''0123456789'' ! n]
      else show_nat (n div 10) @ [''0123456789'' ! (n mod 10)])"

declare show_nat.simps [simp del]

text \<open>\<open>`frame-${Date.now()}`\<close>, with the clock's milliseconds as a parameter.\<close>

definition frameId :: "nat \<Rightarrow> string" where
  "frameId now = ''frame-'' @ show_nat now"

text \<open>
  \<open>xs.splice(start, 0, v)\<close>: a negative \<open>start\<close> counts from the end, and the position
  is clamped to the array.
\<close>

definition splice_insert :: "'a list \<Rightarrow> int \<Rightarrow> 'a \<Rightarrow> 'a list" where
  "splice_insert xs start v =
     (let n = int (length xs);
          k = (if start < 0 then max (n + start) 0 else min start n)
      in take (nat k) xs @ [v] @ drop (nat k) xs)"

text \<open>\<open>xs[i]\<close> on an array of objects: \<open>undefined\<close> outside the array.\<close>

definition js_nth :: "'a list \<Rightarrow> int \<Rightarrow> 'a option" where
  "js_nth xs i = (if 0 \<le> i \<and> i < int (length xs) then Some (xs ! nat i) else None)"

definition initialState :: AppState where
  "initialState =
     \<lparr>heap = [replicate (nat (DEFAULT_SIZE * DEFAULT_SIZE)) (Some ''transparent'')],
      gridSize = \<lparr>width = DEFAULT_SIZE, height = DEFAULT_SIZE\<rparr>,
      frames = [\<lparr>fid = INITIAL_FRAME_ID, pixels = 0\<rparr>],
      currentFrameIdx = 0\<rparr>"

definition handleAddFrame :: "nat \<Rightarrow> AppState \<Rightarrow> js_error + AppState" where
  "handleAddFrame now s =
     (case createEmptyGrid (width (gridSize s)) (height (gridSize s)) of
        Inl e \<Rightarrow> Inl e
      | Inr grid \<Rightarrow>
          let newFrame = \<lparr>fid = frameId now, pixels = length (heap s)\<rparr>;
              newFrames = splice_insert (frames s) (currentFrameIdx s + 1) newFrame
          in Inr (s\<lparr>heap := heap s @ [grid], frames := newFrames,
                    currentFrameIdx := currentFrameIdx s + 1\<rparr>))"

text \<open>
  \<open>current.pixels\<close> throws a TypeError when \<open>frames[currentFrameIdx]\<close> is
  \<open>undefined\<close>. \<open>[...current.pixels]\<close> is a new array with the same elements.
\<close>

definition handleDuplicateFrame :: "nat \<Rightarrow> AppState \<Rightarrow> js_error + AppState" where
  "handleDuplicateFrame now s =
     (case js_nth (frames s) (currentFrameIdx s) of
        None \<Rightarrow> Inl TypeError
      | Some current \<Rightarrow>
          let newFrame = \<lparr>fid = frameId now, pixels = length (heap s)\<rparr>;
              newFrames = splice_insert (frames s) (currentFrameIdx s + 1) newFrame
          in Inr (s\<lparr>heap := heap s @ [heap s ! pixels current], frames := newFrames,
                    currentFrameIdx := currentFrameIdx s + 1\<rparr>))"

text \<open>\<open>frames.filter((_, i) => i !== currentFrameIdx)\<close>.\<close>

definition filter_index :: "'a list \<Rightarrow> int \<Rightarrow> 'a list" where
  "filter_index xs k = map snd (filter (\<lambda>(i, x). int i \<noteq> k) (enumerate 0 xs))"

definition handleDeleteFrame :: "AppState \<Rightarrow> AppState" where
  "handleDeleteFrame s =
     (if length (frames s) \<le> 1 then s
      else s\<lparr>frames := filter_index (frames s) (currentFrameIdx s),
             currentFrameIdx := max 0 (currentFrameIdx s - 1)\<rparr>)"

text \<open>
  One tick of the animation loop: \<open>(current + 1) % frames.length\<close>, which is \<open>NaN\<close>
  on an empty sequence (\<open>None\<close> here).
\<close>

definition playbackTick :: "AppState \<Rightarrow> AppState option" where
  "playbackTick s =
     (if frames s = [] then None
      else Some (s\<lparr>currentFrameIdx :=
                     js_rem (currentFrameIdx s + 1) (int (length (frames s)))\<rparr>))"

text \<open>An assignment \<open>a[i] = v\<close> to the array at address \<open>a\<close>, in place.\<close>

definition heap_write :: "PixelGrid list \<Rightarrow> addr \<Rightarrow> int \<Rightarrow> string \<Rightarrow> PixelGrid list" where
  "heap_write hp a i v = hp[a := js_set (hp ! a) i v]"

text \<open>
  The operations of the timeline, run in sequence. A handler that throws has set no
  state, so the state stays as it was.
\<close>

datatype FrameOp = AddFrame nat | DuplicateFrame nat | DeleteFrame

fun applyOp :: "AppState \<Rightarrow> FrameOp \<Rightarrow> AppState" where
  "applyOp s (AddFrame now) = (case handleAddFrame now s of Inl e \<Rightarrow> s | Inr s' \<Rightarrow> s')"
| "applyOp s (DuplicateFrame now) =
     (case handleDuplicateFrame now s of Inl e \<Rightarrow> s | Inr s' \<Rightarrow> s')"
| "applyOp s DeleteFrame = handleDeleteFrame s"

definition runOps :: "AppState \<Rightarrow> FrameOp list \<Rightarrow> AppState" where
  "runOps s ops = foldl applyOp s ops"

text \<open>The clock readings of the frames that a sequence of operations creates.\<close>

fun creationTimes :: "FrameOp list \<Rightarrow> nat list" where
  "creationTimes [] = []"
| "creationTimes (AddFrame now # ops) = now # creationTimes ops"
| "creationTimes (DuplicateFrame now # ops) = now # creationTimes ops"
| "creationTimes (DeleteFrame # ops) = creationTimes ops"

section \<open>Predicates of the specification\<close>

definition inBounds :: "Size \<Rightarrow> Point \<Rightarrow> bool" where
  "inBounds sz p = (0 \<le> px p \<and> px p < width sz \<and> 0 \<le> py p \<and> py p < height sz)"

definition adjacent8 :: "Point \<Rightarrow> Point \<Rightarrow> bool" where
  "adjacent8 p q = (\<bar>px q - px p\<bar> \<le> 1 \<and> \<bar>py q - py p\<bar> \<le> 1)"

text \<open>Consecutive points are 8-connected and different.\<close>

fun chain8 :: "Point list \<Rightarrow> bool" where
  "chain8 (p # q # ps) = (adjacent8 p q \<and> p \<noteq> q \<and> chain8 (q # ps))"
| "chain8 ps = True"

definition adjacent4 :: "Point \<Rightarrow> Point \<Rightarrow> bool" where
  "adjacent4 p q =
     ((py q = py p \<and> (px q = px p + 1 \<or> px q = px p - 1)) \<or>
      (px q = px p \<and> (py q = py p + 1 \<or> py q = py p - 1)))"

text \<open>
  The points reachable from \<open>start\<close> by steps to the north, east, south or west, through
  points of the grid that hold \<open>targetColor\<close>.
\<close>

inductive reach4 :: "PixelGrid \<Rightarrow> Size \<Rightarrow> string \<Rightarrow> Point \<Rightarrow> Point \<Rightarrow> bool"
  for pixels :: PixelGrid and sz :: Size and targetColor :: string and start :: Point
  where
    reach4_start:
      "inBounds sz start \<Longrightarrow>
       js_get pixels (getIndex (px start) (py start) (width sz)) = Some targetColor \<Longrightarrow>
       reach4 pixels sz targetColor start start"
  | reach4_step:
      "reach4 pixels sz targetColor start p \<Longrightarrow> adjacent4 p q \<Longrightarrow> inBounds sz q \<Longrightarrow>
       js_get pixels (getIndex (px q) (py q) (width sz)) = Some targetColor \<Longrightarrow>
       reach4 pixels sz targetColor start q"

text \<open>What a stroke writes: the active colour, or \<open>transparent\<close> for the eraser.\<close>

definition strokeColor :: "ToolType \<Rightarrow> string \<Rightarrow> string" where
  "strokeColor tool color = (if tool = Pencil then color else ''transparent'')"

text \<open>The invariant of the frame sequence.\<close>

definition frames_inv :: "AppState \<Rightarrow> bool" where
  "frames_inv s =
     (1 \<le> length (frames s) \<and> 0 \<le> currentFrameIdx s \<and>
      currentFrameIdx s < int (length (frames s)))"

text \<open>Every frame refers to an array of the heap.\<close>

definition heap_wf :: "AppState \<Rightarrow> bool" where
  "heap_wf s = list_all (\<lambda>f. pixels f < length (heap s)) (frames s)"

text \<open>
  The neighbours that one iteration of the flood fill pushes, and the loop invariant of
  the flood fill: \<open>np\<close> is the grid with the visited target pixels painted, the
  queue and the painted pixels are reachable, and every in-bounds neighbour of a painted
  pixel is visited or queued.
\<close>

definition pushed :: "int \<Rightarrow> int \<Rightarrow> Point \<Rightarrow> Point list" where
  "pushed w h p =
     filter (\<lambda>n. px n \<ge> 0 \<and> px n < w \<and> py n \<ge> 0 \<and> py n < h)
       [\<lparr>px = px p + 1, py = py p\<rparr>,
        \<lparr>px = px p - 1, py = py p\<rparr>,
        \<lparr>px = px p, py = py p + 1\<rparr>,
        \<lparr>px = px p, py = py p - 1\<rparr>]"

definition flood_inv ::
  "PixelGrid \<Rightarrow> Size \<Rightarrow> string \<Rightarrow> string \<Rightarrow> Point \<Rightarrow> PixelGrid \<Rightarrow> Point list \<Rightarrow> int set \<Rightarrow> bool"
  where
  "flood_inv grid sz t f start np q v =
     (length np = length grid \<and>
      (\<forall>p \<in> set q. inBounds sz p) \<and>
      (\<forall>i. js_get np i =
         (if i \<in> v \<and> js_get grid i = Some t then Some f else js_get grid i)) \<and>
      (\<forall>p \<in> set q. js_get grid (getIndex (px p) (py p) (width sz)) = Some t \<longrightarrow>
         reach4 grid sz t start p) \<and>
      (\<forall>p. inBounds sz p \<and> getIndex (px p) (py p) (width sz) \<in> v \<and>
         js_get grid (getIndex (px p) (py p) (width sz)) = Some t \<longrightarrow>
         reach4 grid sz t start p) \<and>
      (\<forall>p p'. inBounds sz p \<and> getIndex (px p) (py p) (width sz) \<in> v \<and>
         js_get grid (getIndex (px p) (py p) (width sz)) = Some t \<and>
         adjacent4 p p' \<and> inBounds sz p' \<longrightarrow>
         getIndex (px p') (py p') (width sz) \<in> v \<or> p' \<in> set q) \<and>
      (getIndex (px start) (py start) (width sz) \<in> v \<or> start \<in> set q))"

text \<open>
  The loop invariant of Bresenham's algorithm, with \<open>a\<close> and \<open>b\<close> the steps left along
  \<open>x\<close> and \<open>y\<close>.
\<close>

definition bres_inv :: "int \<Rightarrow> int \<Rightarrow> int \<Rightarrow> int \<Rightarrow> int \<Rightarrow> bool" where
  "bres_inv dx dy a b err =
     (0 \<le> a \<and> 0 \<le> b \<and> err = dx - dy + a * dy - b * dx \<and>
      (if dy \<le> dx then - dy < 2 * err \<and> 2 * err < 3 * dx - 2 * dy
       else 2 * dx - 3 * dy < 2 * err \<and> 2 * err < dx))"

section \<open>Index and coordinates\<close>

lemma js_rem_nonneg: "0 \<le> a \<Longrightarrow> 0 < b \<Longrightarrow> js_rem a b = a mod b"
  by (cases "a = 0") (simp_all add: js_rem_def)

lemma getCoords_pos:
  "0 < w \<Longrightarrow> 0 \<le> i \<Longrightarrow> getCoords i w = Some \<lparr>px = i mod w, py = i div w\<rparr>"
  by (simp add: getCoords_def js_rem_nonneg floor_divide_of_int_eq)

lemma getIndex_nonneg: "0 < w \<Longrightarrow> 0 \<le> x \<Longrightarrow> 0 \<le> y \<Longrightarrow> 0 \<le> getIndex x y w"
  by (simp add: getIndex_def)

lemma getCoords_getIndex:
  assumes "0 < w" "0 \<le> x" "x < w" "0 \<le> y"
  shows "getCoords (getIndex x y w) w = Some \<lparr>px = x, py = y\<rparr>"
proof -
  have "0 \<le> getIndex x y w" using assms by (simp add: getIndex_nonneg)
  then have "getCoords (getIndex x y w) w =
      Some \<lparr>px = (y * w + x) mod w, py = (y * w + x) div w\<rparr>"
    using assms(1) by (simp add: getCoords_pos) (simp add: getIndex_def)
  then show ?thesis using assms by simp
qed

lemma getIndex_getCoords:
  assumes "0 < w" "0 \<le> i"
  shows "\<exists>p. getCoords i w = Some p \<and> getIndex (px p) (py p) w = i"
  using assms by (simp add: getCoords_pos getIndex_def)

section \<open>Doubles: where rounding does nothing\<close>

lemma fl_exact: "\<bar>n\<bar> \<le> 2 ^ 53 \<Longrightarrow> fl n = n"
  by (simp add: fl_def)

lemma rne_lower: "num div den \<le> rne num den"
  by (simp add: rne_def Let_def)

lemma rne_upper: "rne num den \<le> num div den + 1"
  by (simp add: rne_def Let_def)

lemma rne_down: "2 * (num mod den) < den \<Longrightarrow> rne num den = num div den"
  by (simp add: rne_def Let_def)

lemma quot_exp_nonneg:
  assumes "0 < b" "b \<le> a"
  shows "0 \<le> quot_exp a b" and "b * 2 ^ nat (quot_exp a b) \<le> a"
proof -
  have c: "0 < a div b" using assms by (simp add: pos_imp_zdiv_pos_iff)
  then have "1 \<le> bitlen (a div b)" using bitlen_eq_zero_iff [of "a div b"] bitlen_nonneg [of "a div b"]
    by linarith
  then show "0 \<le> quot_exp a b" using assms by (simp add: quot_exp_def)
  have "2 ^ nat (bitlen (a div b) - 1) \<le> a div b" using bitlen_bounds [OF c] by simp
  then have "b * 2 ^ nat (bitlen (a div b) - 1) \<le> b * (a div b)"
    using assms(1) by (intro mult_left_mono) simp_all
  also have "\<dots> \<le> a"
  proof -
    have "0 \<le> a mod b" using assms(1) by simp
    moreover have "a = b * (a div b) + a mod b" by simp
    ultimately show ?thesis by linarith
  qed
  finally show "b * 2 ^ nat (quot_exp a b) \<le> a" using assms by (simp add: quot_exp_def)
qed

lemma quot_exp_neg:
  assumes "0 < a" "a < b"
  shows "quot_exp a b < 0" and "b \<le> a * 2 ^ nat (- quot_exp a b)"
proof -
  define c where "c = (b - 1) div a"
  have c: "0 < c" using assms by (simp add: c_def pos_imp_zdiv_pos_iff)
  then have "1 \<le> bitlen c" using bitlen_eq_zero_iff [of c] bitlen_nonneg [of c] by linarith
  then show "quot_exp a b < 0" using assms by (simp add: quot_exp_def c_def)
  have "c < 2 ^ nat (bitlen c)" using bitlen_bounds [OF c] by simp
  then have "c + 1 \<le> 2 ^ nat (bitlen c)" by simp
  then have "a * (c + 1) \<le> a * 2 ^ nat (bitlen c)"
    using assms(1) by (intro mult_left_mono) simp_all
  moreover have "b - 1 < a * (c + 1)"
  proof -
    have "(b - 1) mod a < a" using assms(1) by simp
    moreover have "b - 1 = a * c + (b - 1) mod a" by (simp add: c_def)
    ultimately show ?thesis by (simp add: algebra_simps)
  qed
  ultimately have "b \<le> a * 2 ^ nat (bitlen c)" by linarith
  moreover have "- quot_exp a b = bitlen c" using assms by (simp add: quot_exp_def c_def)
  ultimately show "b \<le> a * 2 ^ nat (- quot_exp a b)" by simp
qed

lemma quot_exp_upper:
  assumes "0 < a" "0 < b"
  shows "b \<le> a \<Longrightarrow> a < b * 2 ^ nat (quot_exp a b + 1)"
    and "a < b \<Longrightarrow> a * 2 ^ nat (- quot_exp a b - 1) < b"
proof -
  assume le: "b \<le> a"
  have c: "0 < a div b" using assms le by (simp add: pos_imp_zdiv_pos_iff)
  have "a div b < 2 ^ nat (bitlen (a div b))" using bitlen_bounds [OF c] by simp
  then have "a div b + 1 \<le> 2 ^ nat (bitlen (a div b))" by simp
  then have "b * (a div b + 1) \<le> b * 2 ^ nat (bitlen (a div b))"
    using assms(2) by (intro mult_left_mono) simp_all
  moreover have "a < b * (a div b + 1)"
  proof -
    have "a mod b < b" using assms(2) by simp
    moreover have "a = b * (a div b) + a mod b" by simp
    moreover have "b * (a div b + 1) = b * (a div b) + b" by (simp add: algebra_simps)
    ultimately show ?thesis by linarith
  qed
  ultimately have "a < b * 2 ^ nat (bitlen (a div b))" by linarith
  then show "a < b * 2 ^ nat (quot_exp a b + 1)" using le by (simp add: quot_exp_def)
next
  assume lt: "a < b"
  define c where "c = (b - 1) div a"
  have c: "0 < c" using assms lt by (simp add: c_def pos_imp_zdiv_pos_iff)
  have "2 ^ nat (bitlen c - 1) \<le> c" using bitlen_bounds [OF c] by simp
  then have "a * 2 ^ nat (bitlen c - 1) \<le> a * c"
    using assms(1) by (intro mult_left_mono) simp_all
  moreover have "a * c \<le> b - 1"
  proof -
    have "0 \<le> (b - 1) mod a" using assms(1) by simp
    moreover have "b - 1 = a * c + (b - 1) mod a" by (simp add: c_def)
    ultimately show ?thesis by linarith
  qed
  ultimately have "a * 2 ^ nat (bitlen c - 1) < b" by linarith
  moreover have "- quot_exp a b - 1 = bitlen c - 1" using lt by (simp add: quot_exp_def c_def)
  ultimately show "a * 2 ^ nat (- quot_exp a b - 1) < b" by simp
qed

lemma int_div_between:
  fixes m n d :: int
  assumes "0 < d" "n * d \<le> m" "m < (n + 1) * d"
  shows "m div d = n"
proof -
  define r where "r = m - n * d"
  have r: "0 \<le> r" "r < d" using assms by (simp_all add: r_def algebra_simps)
  have "m = n * d + r" by (simp add: r_def)
  then have "m div d = n + r div d" using assms(1) by simp
  then show ?thesis using r by simp
qed

lemma int_le_div:
  fixes k x b :: int
  assumes "0 < b" "k * b \<le> x"
  shows "k \<le> x div b"
proof -
  have "(k * b) div b \<le> x div b" using assms(2,1) by (rule zdiv_mono1)
  then show ?thesis using assms(1) by simp
qed

lemma rne_scaled_floor:
  fixes a b :: int
  assumes a: "0 < a" "a \<le> 2 ^ 53" and b: "0 < b" and F: "b * 2 ^ 52 \<le> a * 2 ^ T"
  shows "rne (a * 2 ^ T) b div 2 ^ T = a div b"
proof -
  define n where "n = a div b"
  define P :: int where "P = 2 ^ T"
  define x where "x = a * P"
  define m where "m = rne x b"
  have P: "0 < P" by (simp add: P_def)
  have r0: "0 \<le> a mod b" "a mod b < b" using b by simp_all
  have adec: "a = n * b + a mod b" by (simp add: n_def)
  have nb: "n * b \<le> a" using adec r0 by linarith
  have nb1: "a + 1 \<le> (n + 1) * b" using adec r0 by (simp add: algebra_simps) 
  have "n * P * b = (n * b) * P" by (simp add: algebra_simps)
  also have "\<dots> \<le> a * P" using nb P by (intro mult_right_mono) simp_all
  finally have "n * P \<le> x div b" unfolding x_def using b by (intro int_le_div) simp_all
  then have lower: "n * P \<le> m" using rne_lower [of x b] by (simp add: m_def)
  have xb: "x + P \<le> (n + 1) * P * b"
  proof -
    have "(a + 1) * P \<le> ((n + 1) * b) * P" using nb1 P by (intro mult_right_mono) simp_all
    then show ?thesis by (simp add: x_def algebra_simps)
  qed
  have bP: "b \<le> 2 * P"
  proof -
    have "b * 2 ^ 52 \<le> a * P" using F by (simp add: P_def)
    also have "\<dots> \<le> 2 ^ 53 * P" using a(2) P by (intro mult_right_mono) simp_all
    finally show ?thesis by simp
  qed
  define q where "q = x div b"
  define r where "r = x mod b"
  have xdec: "x = q * b + r" by (simp add: q_def r_def)
  have r: "0 \<le> r" "r < b" using b by (simp_all add: r_def)
  have qK: "q \<le> (n + 1) * P - 1"
  proof (rule ccontr)
    assume "\<not> q \<le> (n + 1) * P - 1"
    then have "(n + 1) * P \<le> q" by simp
    then have "(n + 1) * P * b \<le> q * b" using b by (intro mult_right_mono) simp_all
    then show False using xb xdec r P by linarith
  qed
  have upper: "m < (n + 1) * P"
  proof (cases "q = (n + 1) * P - 1")
    case False
    then have "q + 1 < (n + 1) * P" using qK by simp
    then show ?thesis using rne_upper [of x b] by (simp add: m_def q_def)
  next
    case True
    have "q * b = (n + 1) * P * b - b" by (simp add: True algebra_simps)
    then have rb: "r + P \<le> b" using xb xdec by linarith
    have "2 * r < b"
    proof (rule ccontr)
      assume "\<not> 2 * r < b"
      then have e: "2 * r = b" "b = 2 * P" using rb bP by linarith+
      have "2 ^ 53 * P \<le> a * P" using F e(2) by (simp add: P_def)
      then have "2 ^ 53 \<le> a" using P by simp
      then have "a = 2 ^ 53" using a(2) by simp
      then have "x = 2 ^ 52 * b" by (simp add: x_def e(2))
      then have "r = 0" by (simp add: r_def)
      then show False using e(1) b by simp
    qed
    then have "m = q" unfolding m_def q_def r_def by (rule rne_down)
    then show ?thesis using True by simp
  qed
  have "m div P = n" using P lower upper by (intro int_div_between) simp_all
  then show ?thesis by (simp add: m_def x_def P_def n_def)
qed

lemma fdiv_floor_exact:
  assumes "0 \<le> i" "i \<le> 2 ^ 53" "0 < w"
  shows "\<lfloor>fdiv i w\<rfloor> = i div w"
proof (cases "i = 0")
  case True
  then show ?thesis by (simp add: fdiv_def)
next
  case False
  then have i: "0 < i" using assms(1) by simp
  define e where "e = quot_exp i w"
  define s where "s = e - 52"
  have sg: "sgn i * sgn w = 1" using i assms(3) by simp
  have qs: "quot_exp \<bar>i\<bar> \<bar>w\<bar> - 52 = s" using i assms(3) by (simp add: s_def e_def)
  show ?thesis
  proof (cases "0 \<le> s")
    case True
    have wi: "w \<le> i"
    proof (rule ccontr)
      assume "\<not> w \<le> i"
      then have "quot_exp i w < 0" using i by (intro quot_exp_neg) simp_all
      then show False using True by (simp add: s_def e_def)
    qed
    have ne: "nat e = 52 + nat s" using True by (simp add: s_def)
    define S :: int where "S = 2 ^ nat s"
    have S: "1 \<le> S" by (simp add: S_def)
    have "w * 2 ^ nat e \<le> i" unfolding e_def using assms(3) wi by (rule quot_exp_nonneg)
    then have d: "w * S * 2 ^ 52 \<le> i" by (simp add: ne S_def power_add algebra_simps)
    define c where "c = w * S"
    have "c * 2 ^ 52 \<le> i" using d by (simp only: c_def)
    then have "c * 2 ^ 52 \<le> 2 ^ 53" using assms(2) by (rule order_trans)
    then have "c \<le> 2" by simp
    then have d2: "w * S \<le> 2" by (simp add: c_def)
    have v: "fdiv i w = of_int (rne i (w * S) * S)"
      unfolding fdiv_def Let_def qs using False i assms(3) True sg by (simp add: S_def)
    have wS: "w \<le> 2" "S \<le> 2"
    proof -
      have "w * 1 \<le> w * S" using S assms(3) by (intro mult_left_mono) simp_all
      then show "w \<le> 2" using d2 by simp
      have "1 * S \<le> w * S" using S assms(3) by (intro mult_right_mono) simp_all
      then show "S \<le> 2" using d2 by simp
    qed
    have w12: "w = 1 \<or> w = 2" using wS(1) assms(3) by linarith
    have S12: "S = 1 \<or> S = 2" using wS(2) S by linarith
    have "\<not> (w = 2 \<and> S = 2)" using d2 by auto
    then consider (one) "w = 1" "S = 1" | (wide) "w = 2" "S = 1" | (scaled) "w = 1" "S = 2"
      using w12 S12 by blast
    then have "rne i (w * S) * S = i div w"
    proof cases
      case one
      then show ?thesis by (simp add: rne_down)
    next
      case wide
      then have "i = 2 ^ 53" using d assms(2) by simp
      then show ?thesis using wide by (simp add: rne_down)
    next
      case scaled
      then have "i = 2 ^ 53" using d assms(2) by simp
      then show ?thesis using scaled by (simp add: rne_down)
    qed
    then show ?thesis by (simp add: v)
  next
    case neg: False
    define T where "T = nat (- s)"
    have F: "w * 2 ^ 52 \<le> i * 2 ^ T"
    proof (cases "w \<le> i")
      case True
      have e0: "0 \<le> e" and le: "w * 2 ^ nat e \<le> i"
        unfolding e_def using assms(3) True by (rule quot_exp_nonneg)+
      have "nat e + T = 52" using e0 neg by (simp add: T_def s_def)
      then have "(2::int) ^ 52 = 2 ^ (nat e + T)" by (simp only:)
      then have "w * 2 ^ 52 = (w * 2 ^ nat e) * 2 ^ T" by (simp only: power_add mult.assoc)
      also have "\<dots> \<le> i * 2 ^ T" using le by (intro mult_right_mono) simp_all
      finally show ?thesis .
    next
      case False
      then have lt: "i < w" by simp
      have e0: "e < 0" and le: "w \<le> i * 2 ^ nat (- e)"
        unfolding e_def using i lt by (rule quot_exp_neg)+
      have "T = nat (- e) + 52" using e0 by (simp add: T_def s_def)
      then have "i * 2 ^ T = (i * 2 ^ nat (- e)) * 2 ^ 52"
        by (simp only: power_add mult.assoc)
      moreover have "w * 2 ^ 52 \<le> (i * 2 ^ nat (- e)) * 2 ^ 52"
        using le by (intro mult_right_mono) simp_all
      ultimately show ?thesis by (simp only:)
    qed
    have v: "fdiv i w = of_int (rne (i * 2 ^ T) w) / of_int (2 ^ T)"
      unfolding fdiv_def Let_def qs using False i assms(3) neg sg by (simp add: T_def)
    have "\<lfloor>fdiv i w\<rfloor> = rne (i * 2 ^ T) w div 2 ^ T"
      unfolding v by (rule floor_divide_of_int_eq)
    then show ?thesis using rne_scaled_floor [OF i assms(2,3) F] by simp
  qed
qed

section \<open>Index and coordinates in doubles\<close>

lemma getIndex_fl_exact:
  assumes "\<bar>y * w\<bar> \<le> 2 ^ 53" "\<bar>y * w + x\<bar> \<le> 2 ^ 53"
  shows "getIndex_fl x y w = getIndex x y w"
  using assms by (simp add: getIndex_fl_def getIndex_def fl_exact)

lemma getCoords_fl_exact:
  assumes "0 < w" "0 \<le> i" "i \<le> 2 ^ 53"
  shows "getCoords_fl i w = Some \<lparr>px = i mod w, py = i div w\<rparr>"
  using assms by (simp add: getCoords_fl_def js_rem_nonneg fdiv_floor_exact)

lemma getCoords_fl_getIndex_fl:
  assumes "0 < w" "0 \<le> x" "x < w" "0 \<le> y" "y * w + x \<le> 2 ^ 53"
  shows "getCoords_fl (getIndex_fl x y w) w = Some \<lparr>px = x, py = y\<rparr>"
proof -
  have yw: "0 \<le> y * w" using assms(1,4) by simp
  then have "\<bar>y * w\<bar> \<le> 2 ^ 53" "\<bar>y * w + x\<bar> \<le> 2 ^ 53" using assms(2,5) by linarith+
  then have e: "getIndex_fl x y w = y * w + x"
    by (simp add: getIndex_fl_exact getIndex_def)
  have "getCoords_fl (y * w + x) w = Some \<lparr>px = (y * w + x) mod w, py = (y * w + x) div w\<rparr>"
    using assms(1) yw assms(2,5) by (intro getCoords_fl_exact) linarith+
  then show ?thesis using assms e by simp
qed

lemma getIndex_fl_getCoords_fl:
  assumes "0 < w" "0 \<le> i" "i \<le> 2 ^ 53"
  shows "\<exists>p. getCoords_fl i w = Some p \<and> getIndex_fl (px p) (py p) w = i"
proof -
  have d: "0 \<le> i div w" "0 \<le> i mod w" using assms(1,2) by (simp_all add: pos_imp_zdiv_nonneg_iff)
  have dec: "i div w * w + i mod w = i" by simp
  have yw: "0 \<le> i div w * w" using d(1) assms(1) by simp
  have "\<bar>i div w * w\<bar> \<le> 2 ^ 53" "\<bar>i div w * w + i mod w\<bar> \<le> 2 ^ 53"
    using yw d(2) dec assms(3) by linarith+
  then have "getIndex_fl (i mod w) (i div w) w = i"
    by (simp add: getIndex_fl_exact getIndex_def)
  then show ?thesis using getCoords_fl_exact [OF assms] by simp
qed

text \<open>
  Claim C7, as stated, fails: the source computes in doubles, and for width 3 the point
  (1, 3002399751580331) has \<open>y * width + x = 2^53 + 2\<close>, where the product and the sum
  are rounded to \<open>2^53\<close>; \<open>getCoords\<close> of that index is (2, 3002399751580330).
  Likewise the index \<open>2^54 + 4\<close> does not come back from its coordinates.
\<close>

theorem getIndex_getCoords_rounding_counterexample:
  "(0::int) < 3 \<and> (0::int) \<le> 1 \<and> (1::int) < 3 \<and> (0::int) \<le> 3002399751580331 \<and>
   getIndex_fl 1 3002399751580331 3 = 9007199254740992 \<and>
   getCoords_fl (getIndex_fl 1 3002399751580331 3) 3 =
     Some \<lparr>px = 2, py = 3002399751580330\<rparr> \<and>
   getCoords_fl (getIndex_fl 1 3002399751580331 3) 3 \<noteq>
     Some \<lparr>px = 1, py = 3002399751580331\<rparr> \<and>
   getCoords_fl 18014398509481988 3 = Some \<lparr>px = 2, py = 6004799503160663\<rparr> \<and>
   getIndex_fl 2 6004799503160663 3 \<noteq> 18014398509481988"
  by code_simp

text \<open>
  Claim C7, amended. For a positive width, \<open>getCoords\<close> undoes \<open>getIndex\<close> on every point
  with \<open>0 \<le> x < width\<close>, \<open>0 \<le> y\<close> and \<open>y * width + x \<le> 2^53\<close>, and \<open>getIndex\<close>
  undoes \<open>getCoords\<close> on every index \<open>0 \<le> i < width * height\<close> with \<open>i \<le> 2^53\<close>.
\<close>

theorem getIndex_getCoords_inverse_safe:
  "(0 < w \<and> 0 \<le> x \<and> x < w \<and> 0 \<le> y \<and> y * w + x \<le> 2 ^ 53 \<longrightarrow>
      getCoords_fl (getIndex_fl x y w) w = Some \<lparr>px = x, py = y\<rparr>) \<and>
   (0 < w \<and> 0 \<le> i \<and> i < w * h \<and> i \<le> 2 ^ 53 \<longrightarrow>
      (\<exists>p. getCoords_fl i w = Some p \<and> getIndex_fl (px p) (py p) w = i))"
  using getCoords_fl_getIndex_fl [of w x y] getIndex_fl_getCoords_fl [of w i] by blast

theorem getIndex_getCoords_inverse_safe_witness:
  "((0::int) < 4 \<and> (0::int) \<le> 3 \<and> (3::int) < 4 \<and> (0::int) \<le> 2 \<and>
      (2::int) * 4 + 3 \<le> 2 ^ 53) \<and>
   getCoords_fl (getIndex_fl 3 2 4) 4 = Some \<lparr>px = 3, py = 2\<rparr> \<and>
   ((0::int) < 4 \<and> (0::int) \<le> 9007199254740992 \<and>
      (9007199254740992::int) < 4 * 2251799813685249 \<and> (9007199254740992::int) \<le> 2 ^ 53) \<and>
   (\<exists>p. getCoords_fl 9007199254740992 4 = Some p \<and>
      getIndex_fl (px p) (py p) 4 = 9007199254740992)"
  using getIndex_getCoords_inverse_safe [of 4 3 2 9007199254740992 2251799813685249]
  by simp

section \<open>Bresenham: the loop returns, and what it returns\<close>

lemma bres_major_x:
  fixes a b dx dy :: int
  assumes "0 \<le> dy" "dy \<le> dx" "0 \<le> a" "0 \<le> b"
    and L: "- dy < 2 * (dx - dy + a * dy - b * dx)"
  shows "b \<le> a"
proof (rule ccontr)
  assume "\<not> b \<le> a"
  then have "a + 1 \<le> b" by simp
  then have "(a + 1) * dx \<le> b * dx" using assms by (intro mult_right_mono) auto
  moreover have "a * dy \<le> a * dx" using assms by (intro mult_left_mono) auto
  ultimately show False using L assms by (simp add: algebra_simps)
qed

lemma bres_major_y:
  fixes a b dx dy :: int
  assumes "0 \<le> dx" "dx < dy" "0 \<le> a" "0 \<le> b"
    and L: "2 * (dx - dy + a * dy - b * dx) < dx"
  shows "a \<le> b"
proof (rule ccontr)
  assume "\<not> a \<le> b"
  then have "b + 1 \<le> a" by simp
  then have "(b + 1) * dy \<le> a * dy" using assms by (intro mult_right_mono) auto
  moreover have "b * dx \<le> b * dy" using assms by (intro mult_left_mono) auto
  ultimately show False using L assms by (simp add: algebra_simps)
qed

lemma bres_no_y_step:
  fixes a dx dy :: int
  assumes "0 \<le> dy" "0 < dx" "1 \<le> a"
  shows "\<not> 2 * (dx - dy + a * dy - 0 * dx) < dx"
proof -
  have "1 * dy \<le> a * dy" using assms by (intro mult_right_mono) auto
  then show ?thesis using assms by (simp add: algebra_simps)
qed

lemma bres_no_x_step:
  fixes b dx dy :: int
  assumes "0 \<le> dx" "0 < dy" "1 \<le> b"
  shows "\<not> - dy < 2 * (dx - dy + 0 * dy - b * dx)"
proof -
  have "1 * dx \<le> b * dx" using assms by (intro mult_right_mono) auto
  then show ?thesis using assms by (simp add: algebra_simps)
qed

lemma bres_step:
  fixes a b dx dy err :: int
  assumes inv: "bres_inv dx dy a b err"
    and nn: "0 \<le> dx" "0 \<le> dy" "0 < dx \<or> 0 < dy"
    and more: "0 < a \<or> 0 < b"
  defines "tx \<equiv> - dy < 2 * err" and "ty \<equiv> 2 * err < dx"
  defines "a' \<equiv> (if tx then a - 1 else a)" and "b' \<equiv> (if ty then b - 1 else b)"
  shows "bres_inv dx dy a' b' ((if tx then err - dy else err) + (if ty then dx else 0))"
    and "max a' b' = max a b - 1"
    and "tx \<or> ty"
proof -
  have e: "err = dx - dy + a * dy - b * dx" and a0: "0 \<le> a" and b0: "0 \<le> b"
    using inv by (simp_all add: bres_inv_def)
  show g3: "tx \<or> ty" using inv nn by (auto simp: bres_inv_def tx_def ty_def split: if_splits)
  consider (X) "dy \<le> dx" | (Y) "dx < dy" by linarith
  then have "bres_inv dx dy a' b' ((if tx then err - dy else err) + (if ty then dx else 0))
     \<and> max a' b' = max a b - 1"
  proof cases
    case X
    then have dx: "0 < dx" using nn by linarith
    have LU: "- dy < 2 * err" "2 * err < 3 * dx - 2 * dy"
      using inv X by (simp_all add: bres_inv_def)
    have ba: "b \<le> a" using bres_major_x [OF nn(2) X a0 b0] LU(1) e by simp
    then have a1: "1 \<le> a" using more by linarith
    have tx: tx using LU by (simp add: tx_def)
    have nb: "ty \<Longrightarrow> 1 \<le> b"
    proof (rule ccontr)
      assume ty and "\<not> 1 \<le> b"
      then have "b = 0" using b0 by simp
      then show False using bres_no_y_step [OF nn(2) dx a1] \<open>ty\<close> e by (simp add: ty_def)
    qed
    have e': "(if tx then err - dy else err) + (if ty then dx else 0) =
        dx - dy + a' * dy - b' * dx"
      using tx by (simp add: a'_def b'_def e algebra_simps)
    have inv': "bres_inv dx dy a' b' ((if tx then err - dy else err) + (if ty then dx else 0))"
      unfolding bres_inv_def
    proof (intro conjI)
      show "0 \<le> a'" using a1 by (simp add: a'_def)
      show "0 \<le> b'" using nb b0 by (auto simp: b'_def)
      show "(if tx then err - dy else err) + (if ty then dx else 0) =
        dx - dy + a' * dy - b' * dx" by (rule e')
      show "if dy \<le> dx
        then - dy < 2 * ((if tx then err - dy else err) + (if ty then dx else 0)) \<and>
          2 * ((if tx then err - dy else err) + (if ty then dx else 0)) < 3 * dx - 2 * dy
        else 2 * dx - 3 * dy < 2 * ((if tx then err - dy else err) + (if ty then dx else 0)) \<and>
          2 * ((if tx then err - dy else err) + (if ty then dx else 0)) < dx"
        using X LU tx nn by (auto simp: ty_def)
    qed
    have "b' \<le> a'"
      using bres_major_x [OF nn(2) X, of a' b'] inv' X
      by (simp add: bres_inv_def)
    then show ?thesis using inv' ba tx by (simp add: a'_def)
  next
    case Y
    then have dy: "0 < dy" using nn by linarith
    have LU: "2 * dx - 3 * dy < 2 * err" "2 * err < dx"
      using inv Y by (simp_all add: bres_inv_def)
    have ab: "a \<le> b" using bres_major_y [OF nn(1) Y a0 b0] LU(2) e by simp
    then have b1: "1 \<le> b" using more by linarith
    have ty: ty using LU by (simp add: ty_def)
    have na: "tx \<Longrightarrow> 1 \<le> a"
    proof (rule ccontr)
      assume tx and "\<not> 1 \<le> a"
      then have "a = 0" using a0 by simp
      then show False using bres_no_x_step [OF nn(1) dy b1] \<open>tx\<close> e by (simp add: tx_def)
    qed
    have e': "(if tx then err - dy else err) + (if ty then dx else 0) =
        dx - dy + a' * dy - b' * dx"
      using ty by (simp add: a'_def b'_def e algebra_simps)
    have inv': "bres_inv dx dy a' b' ((if tx then err - dy else err) + (if ty then dx else 0))"
      unfolding bres_inv_def
    proof (intro conjI)
      show "0 \<le> a'" using na a0 by (auto simp: a'_def)
      show "0 \<le> b'" using b1 by (simp add: b'_def)
      show "(if tx then err - dy else err) + (if ty then dx else 0) =
        dx - dy + a' * dy - b' * dx" by (rule e')
      show "if dy \<le> dx
        then - dy < 2 * ((if tx then err - dy else err) + (if ty then dx else 0)) \<and>
          2 * ((if tx then err - dy else err) + (if ty then dx else 0)) < 3 * dx - 2 * dy
        else 2 * dx - 3 * dy < 2 * ((if tx then err - dy else err) + (if ty then dx else 0)) \<and>
          2 * ((if tx then err - dy else err) + (if ty then dx else 0)) < dx"
        using Y LU ty nn by (auto simp: tx_def)
    qed
    have "a' \<le> b'"
      using bres_major_y [OF nn(1) Y, of a' b'] inv' Y
      by (simp add: bres_inv_def)
    then show ?thesis using inv' ab ty by (simp add: b'_def)
  qed
  then show "bres_inv dx dy a' b' ((if tx then err - dy else err) + (if ty then dx else 0))"
    and "max a' b' = max a b - 1" by simp_all
qed

lemma lineLoop_done:
  "lineLoop x1 y1 dx dy sx sy acc x1 y1 err = Some (acc @ [\<lparr>px = x1, py = y1\<rparr>])"
  by (subst lineLoop.simps) simp

lemma lineLoop_step:
  assumes "x0 \<noteq> x1 \<or> y0 \<noteq> y1"
  shows "lineLoop x1 y1 dx dy sx sy acc x0 y0 err =
    lineLoop x1 y1 dx dy sx sy (acc @ [\<lparr>px = x0, py = y0\<rparr>])
      (if - dy < 2 * err then x0 + sx else x0)
      (if 2 * err < dx then y0 + sy else y0)
      ((if - dy < 2 * err then err - dy else err) + (if 2 * err < dx then dx else 0))"
  using assms by (subst lineLoop.simps) (auto simp: Let_def)

lemma lineLoop_path:
  fixes a b :: int
  assumes sx: "sx = 1 \<or> sx = - 1" and sy: "sy = 1 \<or> sy = - 1"
    and nn: "0 \<le> dx" "0 \<le> dy" "0 < dx \<or> 0 < dy"
  shows "nat (max a b) = n \<Longrightarrow> bres_inv dx dy a b err \<Longrightarrow>
    x1 = x0 + sx * a \<Longrightarrow> y1 = y0 + sy * b \<Longrightarrow>
    \<exists>path. lineLoop x1 y1 dx dy sx sy acc x0 y0 err = Some (acc @ path) \<and>
      length path = Suc n \<and> hd path = \<lparr>px = x0, py = y0\<rparr> \<and>
      last path = \<lparr>px = x1, py = y1\<rparr> \<and> chain8 path"
proof (induction n arbitrary: a b err x0 y0 acc)
  case 0
  then have "a = 0" "b = 0" by (simp_all add: bres_inv_def)
  then have "x0 = x1" "y0 = y1" using 0 by simp_all
  then show ?case by (simp add: lineLoop_done)
next
  case (Suc n)
  define tx where "tx \<longleftrightarrow> - dy < 2 * err"
  define ty where "ty \<longleftrightarrow> 2 * err < dx"
  define a' where "a' = (if tx then a - 1 else a)"
  define b' where "b' = (if ty then b - 1 else b)"
  define x0' where "x0' = (if tx then x0 + sx else x0)"
  define y0' where "y0' = (if ty then y0 + sy else y0)"
  define err' where "err' = (if tx then err - dy else err) + (if ty then dx else 0)"
  have a0: "0 \<le> a" and b0: "0 \<le> b" using Suc.prems(2) by (simp_all add: bres_inv_def)
  have more: "0 < a \<or> 0 < b" using Suc.prems(1) by linarith
  have ne: "x0 \<noteq> x1 \<or> y0 \<noteq> y1" using more Suc.prems(3,4) sx sy by auto
  have st: "bres_inv dx dy a' b' err'" "max a' b' = max a b - 1" "tx \<or> ty"
    using bres_step [OF Suc.prems(2) nn more]
    by (simp_all add: a'_def b'_def err'_def tx_def ty_def)
  have n': "nat (max a' b') = n" using st(2) Suc.prems(1) by simp
  have x1': "x1 = x0' + sx * a'" using Suc.prems(3)
    by (simp add: x0'_def a'_def algebra_simps)
  have y1': "y1 = y0' + sy * b'" using Suc.prems(4)
    by (simp add: y0'_def b'_def algebra_simps)
  obtain path where path:
    "lineLoop x1 y1 dx dy sx sy (acc @ [\<lparr>px = x0, py = y0\<rparr>]) x0' y0' err' =
       Some ((acc @ [\<lparr>px = x0, py = y0\<rparr>]) @ path)"
    "length path = Suc n" "hd path = \<lparr>px = x0', py = y0'\<rparr>"
    "last path = \<lparr>px = x1, py = y1\<rparr>" "chain8 path"
    using Suc.IH [OF n' st(1) x1' y1'] by blast
  obtain q qs where q: "path = q # qs" using path(2) by (cases path) auto
  have adj: "adjacent8 \<lparr>px = x0, py = y0\<rparr> q \<and> \<lparr>px = x0, py = y0\<rparr> \<noteq> q"
    using path(3) q sx sy st(3) by (auto simp: adjacent8_def x0'_def y0'_def)
  have "lineLoop x1 y1 dx dy sx sy acc x0 y0 err =
      Some (acc @ (\<lparr>px = x0, py = y0\<rparr> # path))"
    using lineLoop_step [OF ne] path(1)
    by (simp add: x0'_def y0'_def err'_def tx_def ty_def)
  moreover have "chain8 (\<lparr>px = x0, py = y0\<rparr> # path)" using adj path(5) q by simp
  moreover have "last (\<lparr>px = x0, py = y0\<rparr> # path) = \<lparr>px = x1, py = y1\<rparr>"
    using path(4) q by simp
  ultimately show ?case using path(2) by (intro exI [of _ "\<lparr>px = x0, py = y0\<rparr> # path"]) simp
qed

lemma bres_inv_init:
  fixes dx dy :: int
  assumes "0 \<le> dx" "0 \<le> dy" "0 < dx \<or> 0 < dy"
  shows "bres_inv dx dy dx dy (dx - dy)"
  using assms by (auto simp: bres_inv_def algebra_simps)

lemma getLinePixels_same: "getLinePixels s s = Some [s]"
  by (simp add: getLinePixels_def lineLoop_done)

lemma getLinePixels_path:
  "\<exists>ps. getLinePixels s e = Some ps \<and>
     length ps = Suc (nat (max \<bar>px e - px s\<bar> \<bar>py e - py s\<bar>)) \<and>
     hd ps = s \<and> last ps = e \<and> chain8 ps"
proof (cases "s = e")
  case True
  then show ?thesis by (simp add: getLinePixels_same)
next
  case False
  define dx where "dx = \<bar>px e - px s\<bar>"
  define dy where "dy = \<bar>py e - py s\<bar>"
  define sx :: int where "sx = (if px s < px e then 1 else - 1)"
  define sy :: int where "sy = (if py s < py e then 1 else - 1)"
  have ne: "px s \<noteq> px e \<or> py s \<noteq> py e" using False by (auto intro: Point.equality)
  have nn: "0 \<le> dx" "0 \<le> dy" "0 < dx \<or> 0 < dy" using ne by (auto simp: dx_def dy_def)
  have sx: "sx = 1 \<or> sx = - 1" and sy: "sy = 1 \<or> sy = - 1" by (simp_all add: sx_def sy_def)
  have x1: "px e = px s + sx * dx" by (simp add: sx_def dx_def)
  have y1: "py e = py s + sy * dy" by (simp add: sy_def dy_def)
  obtain path where "lineLoop (px e) (py e) dx dy sx sy [] (px s) (py s) (dx - dy) = Some ([] @ path)"
    "length path = Suc (nat (max dx dy))" "hd path = \<lparr>px = px s, py = py s\<rparr>"
    "last path = \<lparr>px = px e, py = py e\<rparr>" "chain8 path"
    using lineLoop_path [OF sx sy nn refl bres_inv_init [OF nn] x1 y1] by blast
  then show ?thesis
    by (simp add: getLinePixels_def Let_def dx_def dy_def sx_def sy_def)
qed

subsection \<open>The loop in doubles\<close>








subsection \<open>The line between two points\<close>







section \<open>Strokes of the pencil and the eraser\<close>

lemma length_js_set_inside:
  "0 \<le> i \<Longrightarrow> i < int (length xs) \<Longrightarrow> length (js_set xs i v) = length xs"
  by (simp add: js_set_def)

lemma js_get_js_set:
  assumes "0 \<le> i"
  shows "js_get (js_set xs i v) j = (if j = i then Some v else js_get xs j)"
proof (cases "i < int (length xs)")
  case True
  then show ?thesis using assms
    by (auto simp: js_get_def js_set_def nth_list_update)
next
  case False
  then have n: "length xs \<le> nat i" using assms by linarith
  show ?thesis
  proof (cases "j = i")
    case True
    then show ?thesis using False assms n
      by (simp add: js_get_def js_set_def nth_append)
  next
    case ji: False
    show ?thesis
    proof (cases "0 \<le> j \<and> j < int (length xs)")
      case True
      then show ?thesis using False assms ji
        by (auto simp: js_get_def js_set_def nth_append)
    next
      case oj: False
      then have "js_get xs j = None" by (auto simp: js_get_def)
      moreover have "js_get (js_set xs i v) j = None"
      proof (cases "0 \<le> j \<and> j < i")
        case True
        then have "nat j - length xs < nat i - length xs" "length xs \<le> nat j"
          using oj n by linarith+
        then show ?thesis using False assms True oj
          by (simp add: js_get_def js_set_def nth_append)
      next
        case False
        then show ?thesis using \<open>\<not> i < int (length xs)\<close> assms ji n
          by (auto simp: js_get_def js_set_def)
      qed
      ultimately show ?thesis using ji by simp
    qed
  qed
qed

lemma drawPixel_stroke:
  assumes "tool = Pencil \<or> tool = Eraser"
  shows "drawPixel sz tool color p g =
    (if inBounds sz p then js_set g (getIndex (px p) (py p) (width sz)) (strokeColor tool color)
     else g)"
  using assms by (auto simp: drawPixel_def inBounds_def strokeColor_def Let_def)

lemma drawPixel_outside: "\<not> inBounds sz p \<Longrightarrow> drawPixel sz tool color p g = g"
  by (auto simp: drawPixel_def inBounds_def)

lemma inBounds_index:
  assumes "inBounds sz p"
  shows "0 \<le> getIndex (px p) (py p) (width sz)"
    and "getIndex (px p) (py p) (width sz) < width sz * height sz"
proof -
  have w: "0 < width sz" and x: "0 \<le> px p" "px p < width sz" and y: "0 \<le> py p" "py p < height sz"
    using assms by (auto simp: inBounds_def)
  show "0 \<le> getIndex (px p) (py p) (width sz)" using w x y by (simp add: getIndex_def)
  have "py p + 1 \<le> height sz" using y by simp
  then have "(py p + 1) * width sz \<le> height sz * width sz"
    using w by (intro mult_right_mono) simp_all
  then show "getIndex (px p) (py p) (width sz) < width sz * height sz"
    using x by (simp add: getIndex_def algebra_simps)
qed

lemma foldl_drawPixel_get:
  assumes "tool = Pencil \<or> tool = Eraser"
  shows "js_get (foldl (\<lambda>g p. drawPixel sz tool color p g) grid ps) i =
    (if \<exists>p \<in> set ps. inBounds sz p \<and> getIndex (px p) (py p) (width sz) = i
     then Some (strokeColor tool color) else js_get grid i)"
proof (induction ps arbitrary: grid)
  case Nil
  show ?case by simp
next
  case (Cons q qs)
  show ?case
  proof (cases "inBounds sz q")
    case True
    then have "0 \<le> getIndex (px q) (py q) (width sz)" by (rule inBounds_index)
    then show ?thesis using True Cons.IH assms
      by (auto simp: drawPixel_stroke js_get_js_set)
  next
    case False
    then show ?thesis using Cons.IH by (auto simp: drawPixel_outside)
  qed
qed

lemma foldl_drawPixel_length:
  assumes "int (length grid) = width sz * height sz"
  shows "length (foldl (\<lambda>g p. drawPixel sz tool color p g) grid ps) = length grid"
  using assms
proof (induction ps arbitrary: grid)
  case Nil
  show ?case by simp
next
  case (Cons q qs)
  have "length (drawPixel sz tool color q grid) = length grid"
  proof (cases "inBounds sz q")
    case True
    then have "0 \<le> getIndex (px q) (py q) (width sz)"
      "getIndex (px q) (py q) (width sz) < int (length grid)"
      using inBounds_index [OF True] Cons.prems by simp_all
    then show ?thesis by (simp add: drawPixel_def Let_def length_js_set_inside)
  next
    case False
    then show ?thesis by (simp add: drawPixel_outside)
  qed
  then show ?case using Cons by simp
qed

text \<open>
  Claim C4. A pencil or eraser stroke from \<open>lastDrawPoint\<close> to \<open>point\<close> returns a grid
  (no error) in which every in-bounds point of the line holds the active colour (pencil)
  or \<open>transparent\<close> (eraser) and every index that is not an in-bounds point of the line
  holds what it held; an out-of-bounds point changes nothing; a grid of
  \<open>width * height\<close> grid keeps its length. On the 4x4 transparent grid the pencil
  stroke from (0,0) to (3,3) with \<open>#ff0000\<close> sets the four diagonal cells and no other.
\<close>

theorem handlePointerMove_stroke:
  assumes "tool = Pencil \<or> tool = Eraser"
  shows "(\<exists>linePoints res.
      getLinePixels lastDrawPoint point = Some linePoints \<and>
      handlePointerMove sz tool color grid lastDrawPoint point = Some res \<and>
      (\<forall>p \<in> set linePoints. inBounds sz p \<longrightarrow>
         js_get res (getIndex (px p) (py p) (width sz)) =
           Some (if tool = Pencil then color else ''transparent'')) \<and>
      (\<forall>i. (\<forall>p \<in> set linePoints. inBounds sz p \<longrightarrow> getIndex (px p) (py p) (width sz) \<noteq> i)
         \<longrightarrow> js_get res i = js_get grid i) \<and>
      (int (length grid) = width sz * height sz \<longrightarrow> length res = length grid)) \<and>
    (\<forall>p g. \<not> inBounds sz p \<longrightarrow> drawPixel sz tool color p g = g) \<and>
    handlePointerMove \<lparr>width = 4, height = 4\<rparr> Pencil ''#ff0000''
        (replicate 16 (Some ''transparent'')) \<lparr>px = 0, py = 0\<rparr> \<lparr>px = 3, py = 3\<rparr> =
      Some [Some ''#ff0000'', Some ''transparent'', Some ''transparent'', Some ''transparent'',
            Some ''transparent'', Some ''#ff0000'', Some ''transparent'', Some ''transparent'',
            Some ''transparent'', Some ''transparent'', Some ''#ff0000'', Some ''transparent'',
            Some ''transparent'', Some ''transparent'', Some ''transparent'', Some ''#ff0000'']"
proof (intro conjI)
  obtain ps where ps: "getLinePixels lastDrawPoint point = Some ps"
    using getLinePixels_path [of lastDrawPoint point] by blast
  define res where "res = foldl (\<lambda>g p. drawPixel sz tool color p g) grid ps"
  have r: "handlePointerMove sz tool color grid lastDrawPoint point = Some res"
    by (simp add: handlePointerMove_def ps res_def)
  have g: "js_get res i =
      (if \<exists>p \<in> set ps. inBounds sz p \<and> getIndex (px p) (py p) (width sz) = i
       then Some (strokeColor tool color) else js_get grid i)" for i
    unfolding res_def by (rule foldl_drawPixel_get [OF assms])
  have a: "\<forall>p \<in> set ps. inBounds sz p \<longrightarrow>
      js_get res (getIndex (px p) (py p) (width sz)) =
        Some (if tool = Pencil then color else ''transparent'')"
    using g by (auto simp: strokeColor_def)
  have b: "\<forall>i. (\<forall>p \<in> set ps. inBounds sz p \<longrightarrow> getIndex (px p) (py p) (width sz) \<noteq> i)
      \<longrightarrow> js_get res i = js_get grid i"
    using g by auto
  have c: "int (length grid) = width sz * height sz \<longrightarrow> length res = length grid"
    unfolding res_def by (simp add: foldl_drawPixel_length)
  show "\<exists>linePoints res.
      getLinePixels lastDrawPoint point = Some linePoints \<and>
      handlePointerMove sz tool color grid lastDrawPoint point = Some res \<and>
      (\<forall>p \<in> set linePoints. inBounds sz p \<longrightarrow>
         js_get res (getIndex (px p) (py p) (width sz)) =
           Some (if tool = Pencil then color else ''transparent'')) \<and>
      (\<forall>i. (\<forall>p \<in> set linePoints. inBounds sz p \<longrightarrow> getIndex (px p) (py p) (width sz) \<noteq> i)
         \<longrightarrow> js_get res i = js_get grid i) \<and>
      (int (length grid) = width sz * height sz \<longrightarrow> length res = length grid)"
    using ps r a b c by blast
  show "\<forall>p g. \<not> inBounds sz p \<longrightarrow> drawPixel sz tool color p g = g"
    by (simp add: drawPixel_outside)
  show "handlePointerMove \<lparr>width = 4, height = 4\<rparr> Pencil ''#ff0000''
        (replicate 16 (Some ''transparent'')) \<lparr>px = 0, py = 0\<rparr> \<lparr>px = 3, py = 3\<rparr> =
      Some [Some ''#ff0000'', Some ''transparent'', Some ''transparent'', Some ''transparent'',
            Some ''transparent'', Some ''#ff0000'', Some ''transparent'', Some ''transparent'',
            Some ''transparent'', Some ''transparent'', Some ''#ff0000'', Some ''transparent'',
            Some ''transparent'', Some ''transparent'', Some ''transparent'', Some ''#ff0000'']"
    by (simp add: handlePointerMove_def getLinePixels_def lineLoop.simps drawPixel_def
        getIndex_def js_set_def numeral_eq_Suc)
qed

theorem handlePointerMove_stroke_witness:
  "(Pencil = Pencil \<or> Pencil = Eraser) \<and>
   (\<exists>res. handlePointerMove \<lparr>width = 4, height = 4\<rparr> Pencil ''#ff0000''
        (replicate 16 (Some ''transparent'')) \<lparr>px = 0, py = 0\<rparr> \<lparr>px = 3, py = 3\<rparr> = Some res \<and>
      js_get res 5 = Some ''#ff0000'' \<and> js_get res 4 = Some ''transparent'' \<and>
      length res = 16)"
proof -
  define sz where "sz = \<lparr>width = 4, height = 4\<rparr>"
  define grid :: PixelGrid where "grid = replicate 16 (Some ''transparent'')"
  have h: "Pencil = Pencil \<or> Pencil = Eraser" by simp
  have l: "getLinePixels \<lparr>px = 0, py = 0\<rparr> \<lparr>px = 3, py = 3\<rparr> =
      Some [\<lparr>px = 0, py = 0\<rparr>, \<lparr>px = 1, py = 1\<rparr>, \<lparr>px = 2, py = 2\<rparr>, \<lparr>px = 3, py = 3\<rparr>]"
    by (simp add: getLinePixels_def lineLoop.simps)
  obtain ps res where r:
    "getLinePixels \<lparr>px = 0, py = 0\<rparr> \<lparr>px = 3, py = 3\<rparr> = Some ps"
    "handlePointerMove sz Pencil ''#ff0000'' grid \<lparr>px = 0, py = 0\<rparr> \<lparr>px = 3, py = 3\<rparr> = Some res"
    "\<forall>p \<in> set ps. inBounds sz p \<longrightarrow>
       js_get res (getIndex (px p) (py p) (width sz)) = Some ''#ff0000''"
    "\<forall>i. (\<forall>p \<in> set ps. inBounds sz p \<longrightarrow> getIndex (px p) (py p) (width sz) \<noteq> i)
       \<longrightarrow> js_get res i = js_get grid i"
    "int (length grid) = width sz * height sz \<longrightarrow> length res = length grid"
    using handlePointerMove_stroke
      [OF h, of "\<lparr>px = 0, py = 0\<rparr>" "\<lparr>px = 3, py = 3\<rparr>" sz "''#ff0000''" grid]
    by auto
  have ps: "ps = [\<lparr>px = 0, py = 0\<rparr>, \<lparr>px = 1, py = 1\<rparr>, \<lparr>px = 2, py = 2\<rparr>, \<lparr>px = 3, py = 3\<rparr>]"
    using r(1) l by simp
  have "js_get res (getIndex 1 1 4) = Some ''#ff0000''"
    using r(3) by (simp add: ps sz_def inBounds_def)
  then have a: "js_get res 5 = Some ''#ff0000''" by (simp add: getIndex_def)
  have "js_get res 4 = js_get grid 4"
    using r(4) by (simp add: ps sz_def getIndex_def)
  then have b: "js_get res 4 = Some ''transparent''" by (simp add: grid_def js_get_def)
  have c: "length res = 16" using r(5) by (simp add: grid_def sz_def)
  show ?thesis using h r(2) a b c by (simp add: sz_def grid_def)
qed

section \<open>Frame identities\<close>

lemma digit_char_inj:
  assumes "a < 10" "b < 10" "''0123456789'' ! a = ''0123456789'' ! b"
  shows "a = b"
proof -
  have "distinct ''0123456789''" by simp
  moreover have "a < length ''0123456789''" "b < length ''0123456789''" using assms by simp_all
  ultimately show ?thesis using assms(3) by (simp only: nth_eq_iff_index_eq)
qed

lemma show_nat_nonempty: "show_nat n \<noteq> []"
  by (subst show_nat.simps) simp

lemma show_nat_inj: "show_nat a = show_nat b \<Longrightarrow> a = b"
proof (induction a arbitrary: b rule: show_nat.induct)
  case (1 n)
  show ?case
  proof (cases "n < 10")
    case True
    then have n: "show_nat n = [''0123456789'' ! n]" by (subst show_nat.simps) simp
    show ?thesis
    proof (cases "b < 10")
      case b: True
      then have "show_nat b = [''0123456789'' ! b]" by (subst show_nat.simps) simp
      then show ?thesis using n "1.prems" True b digit_char_inj by simp
    next
      case False
      then have "show_nat b = show_nat (b div 10) @ [''0123456789'' ! (b mod 10)]"
        by (subst show_nat.simps) simp
      then show ?thesis using n "1.prems" show_nat_nonempty [of "b div 10"] by simp
    qed
  next
    case False
    then have n: "show_nat n = show_nat (n div 10) @ [''0123456789'' ! (n mod 10)]"
      by (subst show_nat.simps) simp
    show ?thesis
    proof (cases "b < 10")
      case True
      then have "show_nat b = [''0123456789'' ! b]" by (subst show_nat.simps) simp
      then show ?thesis using n "1.prems" show_nat_nonempty [of "n div 10"] by simp
    next
      case b: False
      then have "show_nat b = show_nat (b div 10) @ [''0123456789'' ! (b mod 10)]"
        by (subst show_nat.simps) simp
      then have e: "show_nat (n div 10) = show_nat (b div 10)"
        "''0123456789'' ! (n mod 10) = ''0123456789'' ! (b mod 10)"
        using n "1.prems" by simp_all
      have "n div 10 = b div 10" using "1.IH" [OF False e(1)] .
      moreover have "n mod 10 = b mod 10" using e(2) by (intro digit_char_inj) simp_all
      ultimately show ?thesis by (metis div_mult_mod_eq)
    qed
  qed
qed

lemma frameId_inj: "frameId a = frameId b \<longleftrightarrow> a = b"
  by (auto simp: frameId_def dest: show_nat_inj)

lemma frameId_0: "frameId 0 = INITIAL_FRAME_ID"
  by (simp add: frameId_def INITIAL_FRAME_ID_def show_nat.simps)

section \<open>The frame sequence and its invariant\<close>

lemma splice_insert_inside:
  assumes "0 \<le> k" "k \<le> int (length xs)"
  shows "splice_insert xs k v = take (nat k) xs @ [v] @ drop (nat k) xs"
  using assms by (simp add: splice_insert_def Let_def min_def)

lemma length_splice_insert: "length (splice_insert xs k v) = Suc (length xs)"
  by (simp add: splice_insert_def Let_def)

lemma set_splice_insert: "set (splice_insert xs k v) = insert v (set xs)"
proof -
  have "set (take n xs) \<union> set (drop n xs) = set xs" for n
    by (metis append_take_drop_id set_append)
  then show ?thesis by (auto simp: splice_insert_def Let_def)
qed

lemma filter_enumerate_below:
  assumes "k < n"
  shows "map snd (filter (\<lambda>(i, x). i \<noteq> k) (enumerate n xs)) = xs"
proof -
  have "\<forall>p \<in> set (enumerate n xs). (\<lambda>(i, x). i \<noteq> k) p"
    using assms by (auto simp: in_set_enumerate_eq)
  then have "filter (\<lambda>(i, x). i \<noteq> k) (enumerate n xs) = enumerate n xs"
    by (simp only: filter_True)
  then show ?thesis by simp
qed

lemma filter_enumerate_skip:
  assumes "j < length xs"
  shows "map snd (filter (\<lambda>(i, x). i \<noteq> n + j) (enumerate n xs)) = take j xs @ drop (Suc j) xs"
  using assms
proof (induction xs arbitrary: n j)
  case Nil
  then show ?case by simp
next
  case (Cons a as)
  show ?case
  proof (cases j)
    case 0
    have "map snd (filter (\<lambda>(i, x). i \<noteq> n) (enumerate (Suc n) as)) = as"
      by (rule filter_enumerate_below) simp
    then show ?thesis using 0 by simp
  next
    case (Suc j')
    then have "j' < length as" using Cons.prems by simp
    then have "map snd (filter (\<lambda>(i, x). i \<noteq> Suc n + j') (enumerate (Suc n) as)) =
        take j' as @ drop (Suc j') as"
      by (rule Cons.IH)
    then show ?thesis using Suc by simp
  qed
qed

lemma filter_index_inside:
  assumes "0 \<le> k" "k < int (length xs)"
  shows "filter_index xs k = take (nat k) xs @ drop (Suc (nat k)) xs"
proof -
  have "(\<lambda>(i::nat, x::'a). int i \<noteq> k) = (\<lambda>(i, x). i \<noteq> nat k)"
    using assms by (auto simp: fun_eq_iff)
  then have "filter_index xs k =
      map snd (filter (\<lambda>(i, x). i \<noteq> nat k) (enumerate 0 xs))"
    by (simp add: filter_index_def)
  moreover have "nat k < length xs" using assms by linarith
  ultimately show ?thesis using filter_enumerate_skip [of "nat k" xs 0] by simp
qed

lemma handleAddFrame_Inr:
  assumes "frames_inv s" "handleAddFrame now s = Inr s'"
  shows "\<exists>grid. frames s' = take (nat (currentFrameIdx s) + 1) (frames s) @
        [\<lparr>fid = frameId now, pixels = length (heap s)\<rparr>] @
        drop (nat (currentFrameIdx s) + 1) (frames s) \<and>
      currentFrameIdx s' = currentFrameIdx s + 1 \<and>
      heap s' = heap s @ [grid] \<and> gridSize s' = gridSize s"
proof -
  obtain grid where g: "createEmptyGrid (width (gridSize s)) (height (gridSize s)) = Inr grid"
    using assms(2) by (auto simp: handleAddFrame_def split: sum.splits)
  have k: "0 \<le> currentFrameIdx s + 1" "currentFrameIdx s + 1 \<le> int (length (frames s))"
    using assms(1) by (simp_all add: frames_inv_def)
  have n: "nat (currentFrameIdx s + 1) = nat (currentFrameIdx s) + 1"
    using assms(1) by (simp add: frames_inv_def nat_add_distrib)
  show ?thesis using assms(2) g splice_insert_inside [OF k]
    by (auto simp: handleAddFrame_def Let_def n)
qed

lemma handleDuplicateFrame_Inr:
  assumes "frames_inv s"
  shows "handleDuplicateFrame now s =
    Inr (s\<lparr>heap := heap s @ [heap s ! pixels (frames s ! nat (currentFrameIdx s))],
          frames := take (nat (currentFrameIdx s) + 1) (frames s) @
            [\<lparr>fid = frameId now, pixels = length (heap s)\<rparr>] @
            drop (nat (currentFrameIdx s) + 1) (frames s),
          currentFrameIdx := currentFrameIdx s + 1\<rparr>)"
proof -
  have c: "js_nth (frames s) (currentFrameIdx s) = Some (frames s ! nat (currentFrameIdx s))"
    using assms by (simp add: js_nth_def frames_inv_def)
  have k: "0 \<le> currentFrameIdx s + 1" "currentFrameIdx s + 1 \<le> int (length (frames s))"
    using assms by (simp_all add: frames_inv_def)
  have n: "nat (currentFrameIdx s + 1) = nat (currentFrameIdx s) + 1"
    using assms by (simp add: frames_inv_def nat_add_distrib)
  show ?thesis using c splice_insert_inside [OF k]
    by (simp add: handleDuplicateFrame_def Let_def n)
qed

lemma frames_inv_insert:
  assumes "frames_inv s" "length (frames s') = Suc (length (frames s))"
    "currentFrameIdx s' = currentFrameIdx s + 1"
  shows "frames_inv s'"
  using assms by (simp add: frames_inv_def)

lemma frames_inv_handleAddFrame:
  assumes "frames_inv s" "handleAddFrame now s = Inr s'"
  shows "frames_inv s'"
proof -
  obtain grid where "frames s' = take (nat (currentFrameIdx s) + 1) (frames s) @
        [\<lparr>fid = frameId now, pixels = length (heap s)\<rparr>] @
        drop (nat (currentFrameIdx s) + 1) (frames s)"
      "currentFrameIdx s' = currentFrameIdx s + 1"
    using handleAddFrame_Inr [OF assms] by blast
  then show ?thesis by (intro frames_inv_insert [OF assms(1)]) simp_all
qed

lemma frames_inv_handleDuplicateFrame:
  assumes "frames_inv s" "handleDuplicateFrame now s = Inr s'"
  shows "frames_inv s'"
proof -
  have s': "s' = s\<lparr>heap := heap s @ [heap s ! pixels (frames s ! nat (currentFrameIdx s))],
          frames := take (nat (currentFrameIdx s) + 1) (frames s) @
            [\<lparr>fid = frameId now, pixels = length (heap s)\<rparr>] @
            drop (nat (currentFrameIdx s) + 1) (frames s),
          currentFrameIdx := currentFrameIdx s + 1\<rparr>"
    using assms(2) handleDuplicateFrame_Inr [OF assms(1), of now] by simp
  show ?thesis
  proof (rule frames_inv_insert [OF assms(1)])
    show "length (frames s') = Suc (length (frames s))" by (simp add: s')
    show "currentFrameIdx s' = currentFrameIdx s + 1" by (simp add: s')
  qed
qed

lemma handleDeleteFrame_single: "length (frames s) \<le> 1 \<Longrightarrow> handleDeleteFrame s = s"
  by (simp add: handleDeleteFrame_def)

lemma handleDeleteFrame_many:
  assumes "frames_inv s" "1 < length (frames s)"
  shows "frames (handleDeleteFrame s) =
      take (nat (currentFrameIdx s)) (frames s) @ drop (Suc (nat (currentFrameIdx s))) (frames s)"
    and "currentFrameIdx (handleDeleteFrame s) = max 0 (currentFrameIdx s - 1)"
    and "length (frames (handleDeleteFrame s)) = length (frames s) - 1"
    and "heap (handleDeleteFrame s) = heap s"
proof -
  have k: "0 \<le> currentFrameIdx s" "currentFrameIdx s < int (length (frames s))"
    using assms(1) by (simp_all add: frames_inv_def)
  show f: "frames (handleDeleteFrame s) =
      take (nat (currentFrameIdx s)) (frames s) @ drop (Suc (nat (currentFrameIdx s))) (frames s)"
    using assms(2) filter_index_inside [OF k] by (simp add: handleDeleteFrame_def)
  show "currentFrameIdx (handleDeleteFrame s) = max 0 (currentFrameIdx s - 1)"
    using assms(2) by (simp add: handleDeleteFrame_def)
  show "length (frames (handleDeleteFrame s)) = length (frames s) - 1"
    using k by (simp add: f)
  show "heap (handleDeleteFrame s) = heap s" by (simp add: handleDeleteFrame_def)
qed

lemma frames_inv_handleDeleteFrame:
  assumes "frames_inv s"
  shows "frames_inv (handleDeleteFrame s)"
proof (cases "1 < length (frames s)")
  case True
  show ?thesis
    using handleDeleteFrame_many(2,3) [OF assms True] assms True
    by (auto simp: frames_inv_def)
next
  case False
  then show ?thesis using assms by (simp add: handleDeleteFrame_single)
qed

lemma playbackTick_Some:
  assumes "frames_inv s"
  shows "playbackTick s =
    Some (s\<lparr>currentFrameIdx := (currentFrameIdx s + 1) mod int (length (frames s))\<rparr>)"
proof -
  have "frames s \<noteq> []"
  proof
    assume "frames s = []"
    then have "length (frames s) = 0" by simp
    then show False using assms by (simp add: frames_inv_def)
  qed
  moreover have "0 \<le> currentFrameIdx s + 1" "0 < int (length (frames s))"
    using assms unfolding frames_inv_def by linarith+
  then have "js_rem (currentFrameIdx s + 1) (int (length (frames s))) =
      (currentFrameIdx s + 1) mod int (length (frames s))"
    by (rule js_rem_nonneg)
  ultimately show ?thesis by (simp add: playbackTick_def)
qed

lemma frames_inv_initialState: "frames_inv initialState"
  by (simp add: frames_inv_def initialState_def)

text \<open>
  Claim C5. The invariant of the frame sequence (at least one frame, and
  \<open>0 \<le> currentFrameIdx < frames.length\<close>) holds initially and is kept by adding a frame
  and by duplicating one (the index moves to the inserted frame, one after the old
  index), by deleting (no change of state with a single frame, otherwise the index
  becomes \<open>max 0 (index - 1)\<close>), and by a playback tick (the index advances by one
  modulo the number of frames).
\<close>

theorem frames_inv_preserved:
  assumes "frames_inv s"
  shows "(\<forall>now s'. handleAddFrame now s = Inr s' \<longrightarrow>
        frames_inv s' \<and> currentFrameIdx s' = currentFrameIdx s + 1 \<and>
        length (frames s') = length (frames s) + 1) \<and>
    (\<forall>now. \<exists>s'. handleDuplicateFrame now s = Inr s' \<and>
        frames_inv s' \<and> currentFrameIdx s' = currentFrameIdx s + 1 \<and>
        length (frames s') = length (frames s) + 1) \<and>
    frames_inv (handleDeleteFrame s) \<and>
    (length (frames s) = 1 \<longrightarrow> handleDeleteFrame s = s) \<and>
    (length (frames s) \<noteq> 1 \<longrightarrow>
        currentFrameIdx (handleDeleteFrame s) = max 0 (currentFrameIdx s - 1) \<and>
        length (frames (handleDeleteFrame s)) = length (frames s) - 1) \<and>
    (\<exists>s'. playbackTick s = Some s' \<and> frames_inv s' \<and> frames s' = frames s \<and>
        currentFrameIdx s' = (currentFrameIdx s + 1) mod int (length (frames s))) \<and>
    frames_inv initialState"
proof (intro conjI allI impI)
  fix now s'
  assume a: "handleAddFrame now s = Inr s'"
  show "frames_inv s'" using assms a by (rule frames_inv_handleAddFrame)
  show "currentFrameIdx s' = currentFrameIdx s + 1"
    using handleAddFrame_Inr [OF assms a] by blast
  have "length (frames s') = Suc (length (frames s))"
    using a by (auto simp: handleAddFrame_def Let_def length_splice_insert split: sum.splits)
  then show "length (frames s') = length (frames s) + 1" by simp
next
  fix now
  obtain s' where d: "handleDuplicateFrame now s = Inr s'"
    using handleDuplicateFrame_Inr [OF assms] by blast
  have "length (frames s') = Suc (length (frames s))"
    using d by (auto simp: handleDuplicateFrame_def Let_def length_splice_insert
        split: option.splits)
  moreover have "currentFrameIdx s' = currentFrameIdx s + 1"
    using d by (auto simp: handleDuplicateFrame_def Let_def split: option.splits)
  moreover have "frames_inv s'" using assms d by (rule frames_inv_handleDuplicateFrame)
  ultimately show "\<exists>s'. handleDuplicateFrame now s = Inr s' \<and>
        frames_inv s' \<and> currentFrameIdx s' = currentFrameIdx s + 1 \<and>
        length (frames s') = length (frames s) + 1"
    using d by simp
next
  show "frames_inv (handleDeleteFrame s)" using assms by (rule frames_inv_handleDeleteFrame)
next
  assume "length (frames s) = 1"
  then show "handleDeleteFrame s = s" by (simp add: handleDeleteFrame_single)
next
  assume "length (frames s) \<noteq> 1"
  then have m: "1 < length (frames s)" using assms by (simp add: frames_inv_def)
  show "currentFrameIdx (handleDeleteFrame s) = max 0 (currentFrameIdx s - 1)"
    using handleDeleteFrame_many(2) [OF assms m] .
  show "length (frames (handleDeleteFrame s)) = length (frames s) - 1"
    using handleDeleteFrame_many(3) [OF assms m] .
next
  have "0 < int (length (frames s))" using assms unfolding frames_inv_def by linarith
  then have "frames_inv (s\<lparr>currentFrameIdx := (currentFrameIdx s + 1) mod int (length (frames s))\<rparr>)"
    using assms by (simp add: frames_inv_def)
  then show "\<exists>s'. playbackTick s = Some s' \<and> frames_inv s' \<and> frames s' = frames s \<and>
        currentFrameIdx s' = (currentFrameIdx s + 1) mod int (length (frames s))"
    by (simp add: playbackTick_Some [OF assms])
next
  show "frames_inv initialState" by (rule frames_inv_initialState)
qed

theorem frames_inv_preserved_witness:
  "frames_inv initialState \<and>
   (\<exists>s'. handleAddFrame 5 initialState = Inr s' \<and> frames_inv s' \<and>
      currentFrameIdx s' = 1 \<and> length (frames s') = 2) \<and>
   (\<exists>s'. handleDuplicateFrame 5 initialState = Inr s' \<and> frames_inv s' \<and>
      currentFrameIdx s' = 1 \<and> length (frames s') = 2) \<and>
   handleDeleteFrame initialState = initialState \<and>
   (\<exists>s'. playbackTick initialState = Some s' \<and> frames_inv s' \<and> currentFrameIdx s' = 0)"
proof -
  have i: "frames_inv initialState" by (simp add: frames_inv_def initialState_def)
  have c: "currentFrameIdx initialState = 0" "length (frames initialState) = 1"
    by (simp_all add: initialState_def)
  obtain s1 where s1: "handleAddFrame 5 initialState = Inr s1"
    by (simp add: handleAddFrame_def createEmptyGrid_def initialState_def DEFAULT_SIZE_def
        Let_def)
  note t = frames_inv_preserved [OF i]
  have a: "frames_inv s1 \<and> currentFrameIdx s1 = 1 \<and> length (frames s1) = 2"
    using t s1 c by auto
  obtain s2 where d: "handleDuplicateFrame 5 initialState = Inr s2 \<and> frames_inv s2 \<and>
      currentFrameIdx s2 = 1 \<and> length (frames s2) = 2"
    using t c by fastforce
  have e: "handleDeleteFrame initialState = initialState" using t c by blast
  obtain s3 where p: "playbackTick initialState = Some s3 \<and> frames_inv s3 \<and>
      currentFrameIdx s3 = 0"
    using t c by auto
  show ?thesis using i s1 a d e p by blast
qed

section \<open>Duplicating a frame\<close>

lemma heap_write_other: "a \<noteq> b \<Longrightarrow> heap_write hp a j v ! b = hp ! b"
  by (simp add: heap_write_def)

lemma heap_write_same: "a < length hp \<Longrightarrow> heap_write hp a j v ! a = js_set (hp ! a) j v"
  by (simp add: heap_write_def)

text \<open>
  Claim C6. Duplicating inserts, right after the current frame, a frame whose pixel array
  has the elements of the current frame's array at that moment and is another array:
  a later write to either array leaves the other as it was. The new current index is the
  old one plus one.
\<close>

theorem handleDuplicateFrame_copy:
  assumes "frames_inv s" "heap_wf s"
  shows "\<exists>s' orig dup.
      handleDuplicateFrame now s = Inr s' \<and>
      js_nth (frames s) (currentFrameIdx s) = Some orig \<and>
      frames s' = take (nat (currentFrameIdx s) + 1) (frames s) @ [dup] @
        drop (nat (currentFrameIdx s) + 1) (frames s) \<and>
      js_nth (frames s') (currentFrameIdx s) = Some orig \<and>
      js_nth (frames s') (currentFrameIdx s + 1) = Some dup \<and>
      currentFrameIdx s' = currentFrameIdx s + 1 \<and>
      heap s' ! pixels dup = heap s ! pixels orig \<and>
      heap s' ! pixels orig = heap s ! pixels orig \<and>
      pixels dup \<noteq> pixels orig \<and>
      (\<forall>j v. heap_write (heap s') (pixels dup) j v ! pixels orig = heap s' ! pixels orig) \<and>
      (\<forall>j v. heap_write (heap s') (pixels dup) j v ! pixels dup =
         js_set (heap s' ! pixels dup) j v) \<and>
      (\<forall>j v. heap_write (heap s') (pixels orig) j v ! pixels dup = heap s' ! pixels dup) \<and>
      (\<forall>j v. heap_write (heap s') (pixels orig) j v ! pixels orig =
         js_set (heap s' ! pixels orig) j v) \<and>
      heap_wf s'"
proof -
  define i where "i = nat (currentFrameIdx s)"
  define orig where "orig = frames s ! i"
  define dup where "dup = \<lparr>fid = frameId now, pixels = length (heap s)\<rparr>"
  define s' where "s' = s\<lparr>heap := heap s @ [heap s ! pixels orig],
      frames := take (i + 1) (frames s) @ [dup] @ drop (i + 1) (frames s),
      currentFrameIdx := currentFrameIdx s + 1\<rparr>"
  have k: "0 \<le> currentFrameIdx s" "i < length (frames s)" "currentFrameIdx s = int i"
    using assms(1) unfolding frames_inv_def i_def by linarith+
  have r: "handleDuplicateFrame now s = Inr s'"
    using handleDuplicateFrame_Inr [OF assms(1), of now]
    by (simp add: s'_def i_def orig_def dup_def)
  have o: "js_nth (frames s) (currentFrameIdx s) = Some orig"
    using k by (simp add: js_nth_def orig_def)
  have wf: "\<forall>f \<in> set (frames s). pixels f < length (heap s)"
    using assms(2) by (simp add: heap_wf_def list_all_iff)
  have po: "pixels orig < length (heap s)" using wf k(2) by (simp add: orig_def)
  have f': "frames s' = take (i + 1) (frames s) @ [dup] @ drop (i + 1) (frames s)"
    by (simp add: s'_def)
  have l: "length (take (i + 1) (frames s)) = i + 1" using k(2) by simp
  have n1: "frames s' ! i = orig"
    using k(2) by (simp add: f' nth_append orig_def)
  have n2: "frames s' ! (i + 1) = dup"
    unfolding f' using l by (metis nth_append_length append_Cons)
  have len: "length (frames s') = length (frames s) + 1" using k(2) by (simp add: f')
  have j1: "js_nth (frames s') (currentFrameIdx s) = Some orig"
    using n1 len k by (simp add: js_nth_def)
  have j2: "js_nth (frames s') (currentFrameIdx s + 1) = Some dup"
    using n2 len k by (simp add: js_nth_def nat_add_distrib)
  have h1: "heap s' ! pixels dup = heap s ! pixels orig" by (simp add: s'_def dup_def)
  have h2: "heap s' ! pixels orig = heap s ! pixels orig"
    using po by (simp add: s'_def nth_append)
  have ne: "pixels dup \<noteq> pixels orig" using po by (simp add: dup_def)
  have pd: "pixels dup < length (heap s')" by (simp add: dup_def s'_def)
  have po': "pixels orig < length (heap s')" using po by (simp add: s'_def)
  have "\<forall>f \<in> set (frames s'). pixels f < length (heap s')"
  proof
    fix f assume "f \<in> set (frames s')"
    then have "f = dup \<or> f \<in> set (take (i + 1) (frames s)) \<or> f \<in> set (drop (i + 1) (frames s))"
      by (auto simp: f')
    then have "f = dup \<or> f \<in> set (frames s)"
      by (meson in_set_takeD in_set_dropD)
    then show "pixels f < length (heap s')"
      using wf pd by (auto simp: s'_def)
  qed
  then have wf': "heap_wf s'" by (simp add: heap_wf_def list_all_iff)
  have c: "currentFrameIdx s' = currentFrameIdx s + 1" by (simp add: s'_def)
  show ?thesis
    using r o f' j1 j2 c h1 h2 ne wf'
      heap_write_other [OF ne] heap_write_other [OF ne [symmetric]]
      heap_write_same [OF pd] heap_write_same [OF po']
    unfolding i_def [symmetric]
    by (intro exI [of _ s'] exI [of _ orig] exI [of _ dup]) simp
qed

theorem handleDuplicateFrame_copy_witness:
  "frames_inv initialState \<and> heap_wf initialState \<and>
   (\<exists>s' dup. handleDuplicateFrame 5 initialState = Inr s' \<and>
      frames s' = [\<lparr>fid = INITIAL_FRAME_ID, pixels = 0\<rparr>, dup] \<and>
      currentFrameIdx s' = 1 \<and> pixels dup \<noteq> 0 \<and>
      heap s' ! pixels dup = heap initialState ! 0 \<and>
      heap_write (heap s') (pixels dup) 3 ''#ff0000'' ! 0 = heap s' ! 0)"
proof -
  have i: "frames_inv initialState" by (simp add: frames_inv_def initialState_def)
  have w: "heap_wf initialState" by (simp add: heap_wf_def initialState_def)
  have o: "js_nth (frames initialState) (currentFrameIdx initialState) =
      Some \<lparr>fid = INITIAL_FRAME_ID, pixels = 0\<rparr>"
    by (simp add: js_nth_def initialState_def)
  have f: "frames initialState = [\<lparr>fid = INITIAL_FRAME_ID, pixels = 0\<rparr>]"
    "currentFrameIdx initialState = 0"
    by (simp_all add: initialState_def)
  obtain s' orig dup where d:
    "handleDuplicateFrame 5 initialState = Inr s'"
    "js_nth (frames initialState) (currentFrameIdx initialState) = Some orig"
    "frames s' = take (nat (currentFrameIdx initialState) + 1) (frames initialState) @ [dup] @
        drop (nat (currentFrameIdx initialState) + 1) (frames initialState)"
    "currentFrameIdx s' = currentFrameIdx initialState + 1"
    "heap s' ! pixels dup = heap initialState ! pixels orig"
    "pixels dup \<noteq> pixels orig"
    "\<forall>j v. heap_write (heap s') (pixels dup) j v ! pixels orig = heap s' ! pixels orig"
    using handleDuplicateFrame_copy [OF i w, of 5] by blast
  have orig: "orig = \<lparr>fid = INITIAL_FRAME_ID, pixels = 0\<rparr>" using d(2) o by simp
  show ?thesis using i w d orig f by auto
qed

section \<open>Frame identities along a run of operations\<close>

lemma distinct_map_insert_at:
  assumes "distinct (map f xs)" "f v \<notin> f ` set xs"
  shows "distinct (map f (take k xs @ [v] @ drop k xs))"
proof -
  have "distinct (map f (take k xs @ drop k xs))" using assms(1) by simp
  then have d: "distinct (map f (take k xs))" "distinct (map f (drop k xs))"
    "f ` set (take k xs) \<inter> f ` set (drop k xs) = {}"
    by (simp_all only: map_append distinct_append set_map)
  have "f v \<notin> f ` set (take k xs)" "f v \<notin> f ` set (drop k xs)"
    using assms(2) by (auto dest: in_set_takeD in_set_dropD)
  then show ?thesis using d by (auto simp: image_iff)
qed

lemma distinct_map_delete_at:
  assumes "distinct (map f xs)"
  shows "distinct (map f (take k xs @ drop (Suc k) xs))"
proof -
  have "distinct (map f (take k xs @ drop k xs))" using assms by simp
  then have d: "distinct (map f (take k xs))" "distinct (map f (drop k xs))"
    "f ` set (take k xs) \<inter> f ` set (drop k xs) = {}"
    by (simp_all only: map_append distinct_append set_map)
  have e: "drop (Suc k) xs = drop 1 (drop k xs)" by simp
  have "map f (drop (Suc k) xs) = drop 1 (map f (drop k xs))"
    by (simp add: drop_map)
  moreover have "distinct (drop 1 (map f (drop k xs)))" using d(2) by (rule distinct_drop)
  ultimately have "distinct (map f (drop (Suc k) xs))" by simp
  moreover have "set (drop (Suc k) xs) \<subseteq> set (drop k xs)"
    unfolding e by (rule set_drop_subset)
  ultimately show ?thesis using d by (auto simp: image_iff)
qed

lemma set_take_drop_subset: "set (take k xs @ drop j xs) \<subseteq> set xs"
  by (auto dest: in_set_takeD in_set_dropD)

lemma applyOp_frames_inv:
  assumes "frames_inv s"
  shows "frames_inv (applyOp s op)"
proof (cases op)
  case (AddFrame now)
  show ?thesis
  proof (cases "handleAddFrame now s")
    case (Inl e)
    then show ?thesis using AddFrame assms by simp
  next
    case (Inr s')
    then show ?thesis using AddFrame frames_inv_handleAddFrame [OF assms Inr] by simp
  qed
next
  case (DuplicateFrame now)
  show ?thesis
  proof (cases "handleDuplicateFrame now s")
    case (Inl e)
    then show ?thesis using DuplicateFrame assms by simp
  next
    case (Inr s')
    then show ?thesis
      using DuplicateFrame frames_inv_handleDuplicateFrame [OF assms Inr] by simp
  qed
next
  case DeleteFrame
  then show ?thesis using frames_inv_handleDeleteFrame [OF assms] by simp
qed

lemma handleDeleteFrame_frames:
  assumes "frames_inv s"
  shows "frames (handleDeleteFrame s) = frames s \<or>
    frames (handleDeleteFrame s) =
      take (nat (currentFrameIdx s)) (frames s) @ drop (Suc (nat (currentFrameIdx s))) (frames s)"
proof (cases "1 < length (frames s)")
  case True
  then show ?thesis using handleDeleteFrame_many(1) [OF assms] by simp
next
  case False
  then show ?thesis by (simp add: handleDeleteFrame_single)
qed

lemma applyOp_frames:
  assumes "frames_inv s"
  shows "frames (applyOp s op) = frames s \<or>
    frames (applyOp s op) =
      take (nat (currentFrameIdx s)) (frames s) @ drop (Suc (nat (currentFrameIdx s))) (frames s) \<or>
    (\<exists>new. fid new \<in> frameId ` set (creationTimes [op]) \<and>
      frames (applyOp s op) = take (nat (currentFrameIdx s) + 1) (frames s) @ [new] @
        drop (nat (currentFrameIdx s) + 1) (frames s))"
proof (cases op)
  case (AddFrame now)
  show ?thesis
  proof (cases "handleAddFrame now s")
    case (Inl e)
    then show ?thesis using AddFrame by simp
  next
    case (Inr s')
    then show ?thesis using AddFrame handleAddFrame_Inr [OF assms Inr] by auto
  qed
next
  case (DuplicateFrame now)
  then show ?thesis using handleDuplicateFrame_Inr [OF assms, of now] by simp
next
  case DeleteFrame
  then show ?thesis using handleDeleteFrame_frames [OF assms] by auto
qed

lemma applyOp_ids:
  assumes "frames_inv s"
  shows "fid ` set (frames (applyOp s op)) \<subseteq>
    fid ` set (frames s) \<union> frameId ` set (creationTimes [op])"
proof -
  consider (same) "frames (applyOp s op) = frames s"
    | (del) "frames (applyOp s op) =
        take (nat (currentFrameIdx s)) (frames s) @ drop (Suc (nat (currentFrameIdx s))) (frames s)"
    | (ins) new where "fid new \<in> frameId ` set (creationTimes [op])"
        "frames (applyOp s op) = take (nat (currentFrameIdx s) + 1) (frames s) @ [new] @
          drop (nat (currentFrameIdx s) + 1) (frames s)"
    using applyOp_frames [OF assms, of op] by blast
  then show ?thesis
  proof cases
    case same
    then show ?thesis by auto
  next
    case del
    then show ?thesis using set_take_drop_subset [of _ "frames s"] by (simp only:) blast
  next
    case ins
    have "set (frames (applyOp s op)) \<subseteq> insert new (set (frames s))"
      unfolding ins(2) by (auto dest: in_set_takeD in_set_dropD)
    then show ?thesis using ins(1) by blast
  qed
qed

lemma applyOp_distinct:
  assumes "frames_inv s" "distinct (map fid (frames s))"
    "\<forall>t \<in> set (creationTimes [op]). frameId t \<notin> fid ` set (frames s)"
  shows "distinct (map fid (frames (applyOp s op)))"
proof -
  consider (same) "frames (applyOp s op) = frames s"
    | (del) "frames (applyOp s op) =
        take (nat (currentFrameIdx s)) (frames s) @ drop (Suc (nat (currentFrameIdx s))) (frames s)"
    | (ins) new where "fid new \<in> frameId ` set (creationTimes [op])"
        "frames (applyOp s op) = take (nat (currentFrameIdx s) + 1) (frames s) @ [new] @
          drop (nat (currentFrameIdx s) + 1) (frames s)"
    using applyOp_frames [OF assms(1), of op] by blast
  then show ?thesis
  proof cases
    case same
    then show ?thesis using assms(2) by simp
  next
    case del
    then show ?thesis using distinct_map_delete_at [OF assms(2)] by simp
  next
    case ins
    obtain t where t: "t \<in> set (creationTimes [op])" "fid new = frameId t"
      using ins(1) by blast
    have "frameId t \<notin> fid ` set (frames s)" using assms(3) t(1) by blast
    then have "fid new \<notin> fid ` set (frames s)" using t(2) by simp
    with assms(2) show ?thesis unfolding ins(2) by (rule distinct_map_insert_at)
  qed
qed

lemma creationTimes_Cons: "creationTimes (op # ops) = creationTimes [op] @ creationTimes ops"
  by (cases op) simp_all

lemma runOps_distinct:
  assumes "frames_inv s" "distinct (map fid (frames s))" "distinct (creationTimes ops)"
    "\<forall>t \<in> set (creationTimes ops). frameId t \<notin> fid ` set (frames s)"
  shows "frames_inv (runOps s ops) \<and> distinct (map fid (frames (runOps s ops)))"
  using assms
proof (induction ops arbitrary: s)
  case Nil
  then show ?case by (simp add: runOps_def)
next
  case (Cons op ops)
  have c: "creationTimes (op # ops) = creationTimes [op] @ creationTimes ops"
    by (rule creationTimes_Cons)
  have i: "frames_inv (applyOp s op)" using Cons.prems(1) by (rule applyOp_frames_inv)
  have d: "distinct (map fid (frames (applyOp s op)))"
    using Cons.prems(1,2,4) by (intro applyOp_distinct) (simp_all add: c)
  have t: "distinct (creationTimes ops)" using Cons.prems(3) by (simp add: c)
  have n: "\<forall>t \<in> set (creationTimes ops). frameId t \<notin> fid ` set (frames (applyOp s op))"
  proof
    fix t assume t: "t \<in> set (creationTimes ops)"
    then have "frameId t \<notin> fid ` set (frames s)" using Cons.prems(4) by (simp add: c)
    moreover have "t \<notin> set (creationTimes [op])" using Cons.prems(3) t by (auto simp: c)
    then have "frameId t \<notin> frameId ` set (creationTimes [op])" by (auto simp: frameId_inj)
    ultimately show "frameId t \<notin> fid ` set (frames (applyOp s op))"
      using applyOp_ids [OF Cons.prems(1), of op] by blast
  qed
  show ?case using Cons.IH [OF i d t n] by (simp add: runOps_def)
qed

text \<open>
  Claim C9, as stated, fails: two frames added at the same clock reading get the same id.
\<close>

theorem frame_id_collision_counterexample:
  "map fid (frames (runOps initialState [AddFrame 1700000000000, AddFrame 1700000000000])) =
     [''frame-0'', ''frame-1700000000000'', ''frame-1700000000000''] \<and>
   \<not> distinct [''frame-0'', ''frame-1700000000000'', ''frame-1700000000000'']"
  by (simp add: runOps_def initialState_def handleAddFrame_def createEmptyGrid_def
      DEFAULT_SIZE_def INITIAL_FRAME_ID_def splice_insert_def frameId_def Let_def
      show_nat.simps)

text \<open>
  Claim C9, amended. A frame created at the clock reading \<open>now\<close> gets the id
  \<open>frame-<now>\<close>, and different readings give different ids. Along every sequence of
  add, duplicate and delete operations whose clock readings are pairwise different,
  started in a state with pairwise different ids none of which is the id of a reading to
  come, the ids of the sequence stay pairwise different. Each operation leaves the
  frames as they are, removes the current one, or inserts the new one after it; no
  frame's id changes.
\<close>

theorem frame_ids_distinct:
  assumes "frames_inv s" "distinct (map fid (frames s))" "distinct (creationTimes ops)"
    "\<forall>t \<in> set (creationTimes ops). frameId t \<notin> fid ` set (frames s)"
  shows "distinct (map fid (frames (runOps s ops))) \<and>
    (frameId a = frameId b \<longleftrightarrow> a = b) \<and>
    (\<forall>op. frames (applyOp s op) = frames s \<or>
       frames (applyOp s op) = take (nat (currentFrameIdx s)) (frames s) @
         drop (Suc (nat (currentFrameIdx s))) (frames s) \<or>
       (\<exists>new. fid new \<in> frameId ` set (creationTimes [op]) \<and>
          frames (applyOp s op) = take (nat (currentFrameIdx s) + 1) (frames s) @ [new] @
            drop (nat (currentFrameIdx s) + 1) (frames s)))"
  using runOps_distinct [OF assms] frameId_inj [of a b] applyOp_frames [OF assms(1)]
  by blast

theorem frame_ids_distinct_witness:
  "frames_inv initialState \<and> distinct (map fid (frames initialState)) \<and>
   distinct (creationTimes [AddFrame 5, DuplicateFrame 7, DeleteFrame, AddFrame 9]) \<and>
   frameId 5 \<notin> fid ` set (frames initialState) \<and>
   frameId 7 \<notin> fid ` set (frames initialState) \<and>
   frameId 9 \<notin> fid ` set (frames initialState) \<and>
   distinct (map fid (frames
     (runOps initialState [AddFrame 5, DuplicateFrame 7, DeleteFrame, AddFrame 9])))"
proof -
  have i: "frames_inv initialState" by (simp add: frames_inv_def initialState_def)
  have d: "distinct (map fid (frames initialState))" by (simp add: initialState_def)
  have c: "distinct (creationTimes [AddFrame 5, DuplicateFrame 7, DeleteFrame, AddFrame 9])"
    by simp
  have n: "frameId 5 \<notin> fid ` set (frames initialState)"
    "frameId 7 \<notin> fid ` set (frames initialState)"
    "frameId 9 \<notin> fid ` set (frames initialState)"
    by (simp_all add: initialState_def INITIAL_FRAME_ID_def frameId_def show_nat.simps)
  then have a: "\<forall>t \<in> set (creationTimes [AddFrame 5, DuplicateFrame 7, DeleteFrame, AddFrame 9]).
      frameId t \<notin> fid ` set (frames initialState)"
    by simp
  show ?thesis using i d c n frame_ids_distinct [OF i d c a] by blast
qed

section \<open>Flood fill: the loop and its invariant\<close>

lemma floodLoop_empty: "floodLoop w h t f np [] v = np"
  by (simp add: floodLoop.simps)

lemma floodLoop_visited:
  assumes "getIndex (px p) (py p) w \<in> v"
  shows "floodLoop w h t f np (q @ [p]) v = floodLoop w h t f np q v"
  using assms by (subst floodLoop.simps) (simp add: Let_def)

lemma floodLoop_skip:
  assumes "getIndex (px p) (py p) w \<notin> v"
    "js_get np (getIndex (px p) (py p) w) \<noteq> Some t"
  shows "floodLoop w h t f np (q @ [p]) v =
    floodLoop w h t f np q (insert (getIndex (px p) (py p) w) v)"
  using assms by (subst floodLoop.simps) (simp add: Let_def)

lemma floodLoop_fill:
  assumes "getIndex (px p) (py p) w \<notin> v"
    "js_get np (getIndex (px p) (py p) w) = Some t"
  shows "floodLoop w h t f np (q @ [p]) v =
    floodLoop w h t f (js_set np (getIndex (px p) (py p) w) f) (q @ pushed w h p)
      (insert (getIndex (px p) (py p) w) v)"
  using assms by (subst floodLoop.simps) (simp add: Let_def pushed_def)

text \<open>The loop, by cases on the popped point: a proof rule for properties of the result.\<close>

lemma floodLoop_rule:
  assumes empty: "\<And>np v. I np [] v \<Longrightarrow> P np"
    and visited: "\<And>np q p v. I np (q @ [p]) v \<Longrightarrow> getIndex (px p) (py p) w \<in> v \<Longrightarrow> I np q v"
    and skip: "\<And>np q p v. I np (q @ [p]) v \<Longrightarrow> getIndex (px p) (py p) w \<notin> v \<Longrightarrow>
        js_get np (getIndex (px p) (py p) w) \<noteq> Some t \<Longrightarrow>
        I np q (insert (getIndex (px p) (py p) w) v)"
    and fill: "\<And>np q p v. I np (q @ [p]) v \<Longrightarrow> getIndex (px p) (py p) w \<notin> v \<Longrightarrow>
        js_get np (getIndex (px p) (py p) w) = Some t \<Longrightarrow>
        I (js_set np (getIndex (px p) (py p) w) f) (q @ pushed w h p)
          (insert (getIndex (px p) (py p) w) v)"
  shows "I np q v \<Longrightarrow> P (floodLoop w h t f np q v)"
proof -
  have "w' = w \<Longrightarrow> h' = h \<Longrightarrow> t' = t \<Longrightarrow> f' = f \<Longrightarrow> I np q v \<Longrightarrow>
      P (floodLoop w' h' t' f' np q v)" for w' h' t' f'
  proof (induction w' h' t' f' np q v rule: floodLoop.induct)
    case (1 w' h' t' f' np q v)
    note eqs = "1.prems"(1-4)
    show ?case
    proof (cases "q = []")
      case True
      then show ?thesis using "1.prems"(5) empty by (simp add: floodLoop_empty)
    next
      case False
      define p where "p = last q"
      define q' where "q' = butlast q"
      define idx where "idx = getIndex (px p) (py p) w'"
      have q: "q = q' @ [p]" using False by (simp add: p_def q'_def)
      have inv: "I np (q' @ [p]) v" using "1.prems"(5) by (simp add: q)
      have idx: "idx = getIndex (px p) (py p) w" by (simp add: idx_def eqs)
      show ?thesis
      proof (cases "idx \<in> v")
        case True
        have "I np q' v" using visited [OF inv] True by (simp add: idx)
        then have "P (floodLoop w' h' t' f' np q' v)"
          using "1.IH"(1) [OF False p_def q'_def idx_def True eqs] by simp
        moreover have "floodLoop w' h' t' f' np q v = floodLoop w' h' t' f' np q' v"
          unfolding q using True by (intro floodLoop_visited) (simp add: idx_def)
        ultimately show ?thesis by simp
      next
        case nv: False
        define v' where "v' = insert idx v"
        show ?thesis
        proof (cases "js_get np idx = Some t'")
          case True
          define np' where "np' = js_set np idx f'"
          define ns where "ns =
            [\<lparr>px = px p + 1, py = py p\<rparr>, \<lparr>px = px p - 1, py = py p\<rparr>,
             \<lparr>px = px p, py = py p + 1\<rparr>, \<lparr>px = px p, py = py p - 1\<rparr>]"
          define q'' where "q'' = q' @
            filter (\<lambda>n. px n \<ge> 0 \<and> px n < w' \<and> py n \<ge> 0 \<and> py n < h') ns"
          have q'': "q'' = q' @ pushed w h p" by (simp add: q''_def ns_def pushed_def eqs)
          have "I np' q'' v'"
            using fill [OF inv] nv True by (simp add: idx np'_def q'' v'_def eqs)
          then have "P (floodLoop w' h' t' f' np' q'' v')"
            using "1.IH"(2) [OF False p_def q'_def idx_def nv v'_def True np'_def ns_def
                q''_def eqs]
            by simp
          moreover have "floodLoop w' h' t' f' np (q' @ [p]) v =
              floodLoop w' h' t' f' (js_set np (getIndex (px p) (py p) w') f')
                (q' @ pushed w' h' p) (insert (getIndex (px p) (py p) w') v)"
            using nv True unfolding idx_def by (rule floodLoop_fill)
          then have "floodLoop w' h' t' f' np q v = floodLoop w' h' t' f' np' q'' v'"
            by (simp add: q idx_def np'_def q'' v'_def eqs)
          ultimately show ?thesis by simp
        next
          case False
          have "I np q' v'" using skip [OF inv] nv False by (simp add: idx v'_def eqs)
          then have "P (floodLoop w' h' t' f' np q' v')"
            using "1.IH"(3) [OF \<open>q \<noteq> []\<close> p_def q'_def idx_def nv v'_def False eqs] by simp
          moreover have "floodLoop w' h' t' f' np q v = floodLoop w' h' t' f' np q' v'"
            unfolding q using nv False
            by (simp add: floodLoop_skip idx_def [symmetric] v'_def)
          ultimately show ?thesis by simp
        qed
      qed
    qed
  qed
  then show "I np q v \<Longrightarrow> P (floodLoop w h t f np q v)" by simp
qed

subsection \<open>What the fill leaves alone\<close>

lemma js_get_Some_range: "js_get xs i = Some c \<Longrightarrow> 0 \<le> i \<and> i < int (length xs)"
  by (simp add: js_get_def split: if_splits)

lemma floodLoop_frame:
  "length (floodLoop w h t f grid q v) = length grid \<and>
   (\<forall>i. js_get (floodLoop w h t f grid q v) i = js_get grid i \<or>
        (js_get (floodLoop w h t f grid q v) i = Some f \<and> js_get grid i = Some t))"
proof -
  define I where "I = (\<lambda>np (q::Point list) (v::int set).
    length np = length grid \<and>
    (\<forall>i. js_get np i = js_get grid i \<or> (js_get np i = Some f \<and> js_get grid i = Some t)))"
  have "I grid q v \<Longrightarrow> (\<lambda>np. I np [] {}) (floodLoop w h t f grid q v)"
  proof (rule floodLoop_rule [where I = I])
    fix np q p v
    assume inv: "I np (q @ [p]) v" and c: "js_get np (getIndex (px p) (py p) w) = Some t"
    define idx where "idx = getIndex (px p) (py p) w"
    have r: "0 \<le> idx" "idx < int (length np)"
      using js_get_Some_range [OF c] by (simp_all add: idx_def)
    have g: "js_get (js_set np idx f) i = (if i = idx then Some f else js_get np i)" for i
      using r(1) by (rule js_get_js_set)
    have "js_get grid idx = Some t" using inv c unfolding I_def idx_def by metis
    then have "\<forall>i. js_get (js_set np idx f) i = js_get grid i \<or>
        (js_get (js_set np idx f) i = Some f \<and> js_get grid i = Some t)"
      using inv unfolding I_def g by auto
    moreover have "length (js_set np idx f) = length grid"
      using inv r by (simp add: I_def length_js_set_inside)
    ultimately show "I (js_set np (getIndex (px p) (py p) w) f) (q @ pushed w h p)
        (insert (getIndex (px p) (py p) w) v)"
      by (simp add: I_def idx_def)
  qed (simp_all add: I_def)
  then show ?thesis by (simp add: I_def)
qed

text \<open>
  Claim C10. The grid that \<open>floodFill\<close> returns has the length of the input grid, and
  every pixel of it is the input pixel or is \<open>fillColor\<close> where the input pixel was
  \<open>targetColor\<close>: a pixel of another colour is never rewritten.
\<close>

theorem floodFill_frame:
  "length (floodFill grid start targetColor fillColor sz) = length grid \<and>
   (\<forall>i. js_get (floodFill grid start targetColor fillColor sz) i = js_get grid i \<or>
        (js_get (floodFill grid start targetColor fillColor sz) i = Some fillColor \<and>
         js_get grid i = Some targetColor))"
  using floodLoop_frame [of "width sz" "height sz" targetColor fillColor grid "[start]" "{}"]
  by (simp add: floodFill_def Let_def)

subsection \<open>What the fill paints\<close>

lemma reach4_inBounds: "reach4 grid sz t start p \<Longrightarrow> inBounds sz p"
  by (induction rule: reach4.induct) simp_all

lemma reach4_target:
  "reach4 grid sz t start p \<Longrightarrow> js_get grid (getIndex (px p) (py p) (width sz)) = Some t"
  by (induction rule: reach4.induct) simp_all

lemma getIndex_inj:
  assumes "inBounds sz p" "inBounds sz p'"
    "getIndex (px p) (py p) (width sz) = getIndex (px p') (py p') (width sz)"
  shows "p = p'"
proof -
  have b: "0 < width sz" "0 \<le> px p" "px p < width sz" "0 \<le> py p"
    using assms(1) unfolding inBounds_def by linarith+
  have b': "0 \<le> px p'" "px p' < width sz" "0 \<le> py p'"
    using assms(2) unfolding inBounds_def by linarith+
  have c: "getCoords (getIndex (px p) (py p) (width sz)) (width sz) =
      Some \<lparr>px = px p, py = py p\<rparr>"
    using b by (rule getCoords_getIndex)
  have c': "getCoords (getIndex (px p') (py p') (width sz)) (width sz) =
      Some \<lparr>px = px p', py = py p'\<rparr>"
    using b(1) b' by (rule getCoords_getIndex)
  have "Some \<lparr>px = px p, py = py p\<rparr> = Some \<lparr>px = px p', py = py p'\<rparr>"
    unfolding c [symmetric] c' [symmetric] assms(3) by (rule refl)
  then have "px p = px p'" "py p = py p'" by simp_all
  then show ?thesis by (rule Point.equality) simp
qed

lemma set_pushed:
  "set (pushed (width sz) (height sz) p) = {p'. adjacent4 p p' \<and> inBounds sz p'}"
proof -
  have "p' \<in> set (pushed (width sz) (height sz) p) \<longleftrightarrow> adjacent4 p p' \<and> inBounds sz p'" for p'
    by (cases p') (auto simp: pushed_def adjacent4_def inBounds_def)
  then show ?thesis by blast
qed

lemma flood_inv_init:
  assumes "inBounds sz start"
  shows "flood_inv grid sz t f start grid [start] {}"
  using assms by (auto simp: flood_inv_def intro: reach4_start)

lemma flood_inv_visited:
  assumes "flood_inv grid sz t f start np (q @ [p]) v"
    "getIndex (px p) (py p) (width sz) \<in> v"
  shows "flood_inv grid sz t f start np q v"
proof -
  have c: "\<forall>a a'. inBounds sz a \<and> getIndex (px a) (py a) (width sz) \<in> v \<and>
         js_get grid (getIndex (px a) (py a) (width sz)) = Some t \<and>
         adjacent4 a a' \<and> inBounds sz a' \<longrightarrow>
         getIndex (px a') (py a') (width sz) \<in> v \<or> a' \<in> set (q @ [p])"
    using assms(1) unfolding flood_inv_def by blast
  have c': "\<forall>a a'. inBounds sz a \<and> getIndex (px a) (py a) (width sz) \<in> v \<and>
         js_get grid (getIndex (px a) (py a) (width sz)) = Some t \<and>
         adjacent4 a a' \<and> inBounds sz a' \<longrightarrow>
         getIndex (px a') (py a') (width sz) \<in> v \<or> a' \<in> set q"
  proof (intro allI impI)
    fix a a'
    assume h: "inBounds sz a \<and> getIndex (px a) (py a) (width sz) \<in> v \<and>
         js_get grid (getIndex (px a) (py a) (width sz)) = Some t \<and>
         adjacent4 a a' \<and> inBounds sz a'"
    then have "getIndex (px a') (py a') (width sz) \<in> v \<or> a' \<in> set (q @ [p])"
      using c by blast
    then show "getIndex (px a') (py a') (width sz) \<in> v \<or> a' \<in> set q"
      using assms(2) by auto
  qed
  have s: "getIndex (px start) (py start) (width sz) \<in> v \<or> start \<in> set q"
    using assms unfolding flood_inv_def by auto
  show ?thesis
    unfolding flood_inv_def
    using assms(1) c' s unfolding flood_inv_def by simp
qed

lemma flood_inv_skip:
  assumes "flood_inv grid sz t f start np (q @ [p]) v"
    "getIndex (px p) (py p) (width sz) \<notin> v"
    "js_get np (getIndex (px p) (py p) (width sz)) \<noteq> Some t"
  shows "flood_inv grid sz t f start np q (insert (getIndex (px p) (py p) (width sz)) v)"
proof -
  define idx where "idx = getIndex (px p) (py p) (width sz)"
  have np: "\<forall>i. js_get np i =
      (if i \<in> v \<and> js_get grid i = Some t then Some f else js_get grid i)"
    using assms(1) unfolding flood_inv_def by blast
  then have g: "js_get grid idx \<noteq> Some t" using assms(2,3) by (simp add: idx_def)
  have i3: "\<forall>i. js_get np i =
      (if i \<in> insert idx v \<and> js_get grid i = Some t then Some f else js_get grid i)"
    using np g by auto
  have i5: "\<forall>a. inBounds sz a \<and> getIndex (px a) (py a) (width sz) \<in> insert idx v \<and>
         js_get grid (getIndex (px a) (py a) (width sz)) = Some t \<longrightarrow>
         reach4 grid sz t start a"
    using assms(1) g unfolding flood_inv_def by auto
  have c: "\<forall>a a'. inBounds sz a \<and> getIndex (px a) (py a) (width sz) \<in> v \<and>
         js_get grid (getIndex (px a) (py a) (width sz)) = Some t \<and>
         adjacent4 a a' \<and> inBounds sz a' \<longrightarrow>
         getIndex (px a') (py a') (width sz) \<in> v \<or> a' \<in> set (q @ [p])"
    using assms(1) unfolding flood_inv_def by blast
  have i6: "\<forall>a a'. inBounds sz a \<and> getIndex (px a) (py a) (width sz) \<in> insert idx v \<and>
         js_get grid (getIndex (px a) (py a) (width sz)) = Some t \<and>
         adjacent4 a a' \<and> inBounds sz a' \<longrightarrow>
         getIndex (px a') (py a') (width sz) \<in> insert idx v \<or> a' \<in> set q"
  proof (intro allI impI)
    fix a a'
    assume h: "inBounds sz a \<and> getIndex (px a) (py a) (width sz) \<in> insert idx v \<and>
         js_get grid (getIndex (px a) (py a) (width sz)) = Some t \<and>
         adjacent4 a a' \<and> inBounds sz a'"
    then have "getIndex (px a) (py a) (width sz) \<in> v" using g by auto
    then have "getIndex (px a') (py a') (width sz) \<in> v \<or> a' \<in> set (q @ [p])"
      using c h by blast
    then show "getIndex (px a') (py a') (width sz) \<in> insert idx v \<or> a' \<in> set q"
      by (auto simp: idx_def)
  qed
  have i7: "getIndex (px start) (py start) (width sz) \<in> insert idx v \<or> start \<in> set q"
    using assms(1) unfolding flood_inv_def by (auto simp: idx_def)
  have i124: "length np = length grid" "\<forall>a \<in> set q. inBounds sz a"
    "\<forall>a \<in> set q. js_get grid (getIndex (px a) (py a) (width sz)) = Some t \<longrightarrow>
         reach4 grid sz t start a"
    using assms(1) unfolding flood_inv_def by auto
  show ?thesis
    unfolding flood_inv_def idx_def [symmetric]
    using i124 i3 i5 i6 i7 by blast
qed

lemma flood_inv_fill:
  assumes "flood_inv grid sz t f start np (q @ [p]) v"
    "getIndex (px p) (py p) (width sz) \<notin> v"
    "js_get np (getIndex (px p) (py p) (width sz)) = Some t"
  shows "flood_inv grid sz t f start (js_set np (getIndex (px p) (py p) (width sz)) f)
    (q @ pushed (width sz) (height sz) p) (insert (getIndex (px p) (py p) (width sz)) v)"
proof -
  define idx where "idx = getIndex (px p) (py p) (width sz)"
  have np: "\<forall>i. js_get np i =
      (if i \<in> v \<and> js_get grid i = Some t then Some f else js_get grid i)"
    using assms(1) unfolding flood_inv_def by blast
  then have g: "js_get grid idx = Some t" using assms(2,3) by (simp add: idx_def)
  have r: "0 \<le> idx" "idx < int (length np)"
    using js_get_Some_range [OF assms(3)] by (simp_all add: idx_def)
  have pb: "inBounds sz p" using assms(1) unfolding flood_inv_def by simp
  have pr: "reach4 grid sz t start p"
    using assms(1) g unfolding flood_inv_def idx_def by simp
  have i1: "length (js_set np idx f) = length grid"
    using assms(1) r by (simp add: flood_inv_def length_js_set_inside)
  have i2: "\<forall>a \<in> set (q @ pushed (width sz) (height sz) p). inBounds sz a"
    using assms(1) unfolding flood_inv_def by (auto simp: set_pushed)
  have i3: "\<forall>i. js_get (js_set np idx f) i =
      (if i \<in> insert idx v \<and> js_get grid i = Some t then Some f else js_get grid i)"
    using np g by (auto simp: js_get_js_set [OF r(1)])
  have i4: "\<forall>a \<in> set (q @ pushed (width sz) (height sz) p).
      js_get grid (getIndex (px a) (py a) (width sz)) = Some t \<longrightarrow> reach4 grid sz t start a"
  proof (intro ballI impI)
    fix a
    assume a: "a \<in> set (q @ pushed (width sz) (height sz) p)"
      and ga: "js_get grid (getIndex (px a) (py a) (width sz)) = Some t"
    show "reach4 grid sz t start a"
    proof (cases "a \<in> set q")
      case True
      then show ?thesis using assms(1) ga unfolding flood_inv_def by simp
    next
      case False
      then have "adjacent4 p a \<and> inBounds sz a" using a by (simp add: set_pushed)
      then show ?thesis using pr ga by (auto intro: reach4_step)
    qed
  qed
  have i5: "\<forall>a. inBounds sz a \<and> getIndex (px a) (py a) (width sz) \<in> insert idx v \<and>
         js_get grid (getIndex (px a) (py a) (width sz)) = Some t \<longrightarrow>
         reach4 grid sz t start a"
  proof (intro allI impI)
    fix a
    assume h: "inBounds sz a \<and> getIndex (px a) (py a) (width sz) \<in> insert idx v \<and>
         js_get grid (getIndex (px a) (py a) (width sz)) = Some t"
    show "reach4 grid sz t start a"
    proof (cases "getIndex (px a) (py a) (width sz) = idx")
      case True
      then have "a = p" using h pb by (intro getIndex_inj [of sz]) (simp_all add: idx_def)
      then show ?thesis using pr by simp
    next
      case False
      then show ?thesis using h assms(1) unfolding flood_inv_def by simp
    qed
  qed
  have c: "\<forall>a a'. inBounds sz a \<and> getIndex (px a) (py a) (width sz) \<in> v \<and>
         js_get grid (getIndex (px a) (py a) (width sz)) = Some t \<and>
         adjacent4 a a' \<and> inBounds sz a' \<longrightarrow>
         getIndex (px a') (py a') (width sz) \<in> v \<or> a' \<in> set (q @ [p])"
    using assms(1) unfolding flood_inv_def by blast
  have i6: "\<forall>a a'. inBounds sz a \<and> getIndex (px a) (py a) (width sz) \<in> insert idx v \<and>
         js_get grid (getIndex (px a) (py a) (width sz)) = Some t \<and>
         adjacent4 a a' \<and> inBounds sz a' \<longrightarrow>
         getIndex (px a') (py a') (width sz) \<in> insert idx v \<or>
         a' \<in> set (q @ pushed (width sz) (height sz) p)"
  proof (intro allI impI)
    fix a a'
    assume h: "inBounds sz a \<and> getIndex (px a) (py a) (width sz) \<in> insert idx v \<and>
         js_get grid (getIndex (px a) (py a) (width sz)) = Some t \<and>
         adjacent4 a a' \<and> inBounds sz a'"
    show "getIndex (px a') (py a') (width sz) \<in> insert idx v \<or>
         a' \<in> set (q @ pushed (width sz) (height sz) p)"
    proof (cases "getIndex (px a) (py a) (width sz) = idx")
      case True
      then have "a = p" using h pb by (intro getIndex_inj [of sz]) (simp_all add: idx_def)
      then have "a' \<in> set (pushed (width sz) (height sz) p)" using h by (simp add: set_pushed)
      then show ?thesis by simp
    next
      case False
      then have "getIndex (px a) (py a) (width sz) \<in> v" using h by simp
      then have "getIndex (px a') (py a') (width sz) \<in> v \<or> a' \<in> set (q @ [p])"
        using c h by blast
      then show ?thesis by (auto simp: idx_def)
    qed
  qed
  have i7: "getIndex (px start) (py start) (width sz) \<in> insert idx v \<or>
      start \<in> set (q @ pushed (width sz) (height sz) p)"
    using assms(1) unfolding flood_inv_def by (auto simp: idx_def)
  show ?thesis
    unfolding flood_inv_def idx_def [symmetric]
    using i1 i2 i3 i4 i5 i6 i7 by blast
qed

lemma flood_inv_closed:
  assumes "flood_inv grid sz t f start np q v"
    "inBounds sz a" "getIndex (px a) (py a) (width sz) \<in> v"
    "js_get grid (getIndex (px a) (py a) (width sz)) = Some t"
    "adjacent4 a a'" "inBounds sz a'"
  shows "getIndex (px a') (py a') (width sz) \<in> v \<or> a' \<in> set q"
proof -
  have "\<forall>p p'. inBounds sz p \<and> getIndex (px p) (py p) (width sz) \<in> v \<and>
         js_get grid (getIndex (px p) (py p) (width sz)) = Some t \<and>
         adjacent4 p p' \<and> inBounds sz p' \<longrightarrow>
         getIndex (px p') (py p') (width sz) \<in> v \<or> p' \<in> set q"
    using assms(1) unfolding flood_inv_def by (elim conjE)
  then have "inBounds sz a \<and> getIndex (px a) (py a) (width sz) \<in> v \<and>
         js_get grid (getIndex (px a) (py a) (width sz)) = Some t \<and>
         adjacent4 a a' \<and> inBounds sz a' \<longrightarrow>
         getIndex (px a') (py a') (width sz) \<in> v \<or> a' \<in> set q"
    by (elim allE)
  then show ?thesis using assms(2-6) by simp
qed

lemma flood_inv_sound:
  assumes "flood_inv grid sz t f start np q v"
    "inBounds sz a" "getIndex (px a) (py a) (width sz) \<in> v"
    "js_get grid (getIndex (px a) (py a) (width sz)) = Some t"
  shows "reach4 grid sz t start a"
proof -
  have "\<forall>p. inBounds sz p \<and> getIndex (px p) (py p) (width sz) \<in> v \<and>
         js_get grid (getIndex (px p) (py p) (width sz)) = Some t \<longrightarrow>
         reach4 grid sz t start p"
    using assms(1) unfolding flood_inv_def by (elim conjE)
  then have "inBounds sz a \<and> getIndex (px a) (py a) (width sz) \<in> v \<and>
         js_get grid (getIndex (px a) (py a) (width sz)) = Some t \<longrightarrow>
         reach4 grid sz t start a"
    by (elim allE)
  then show ?thesis using assms(2-4) by simp
qed

lemma flood_inv_pixels:
  assumes "flood_inv grid sz t f start np q v"
  shows "js_get np i = (if i \<in> v \<and> js_get grid i = Some t then Some f else js_get grid i)"
    and "length np = length grid"
proof -
  have "\<forall>i. js_get np i =
      (if i \<in> v \<and> js_get grid i = Some t then Some f else js_get grid i)"
    using assms unfolding flood_inv_def by (elim conjE)
  then show "js_get np i =
      (if i \<in> v \<and> js_get grid i = Some t then Some f else js_get grid i)"
    by (elim allE)
  show "length np = length grid" using assms unfolding flood_inv_def by (elim conjE)
qed

lemma flood_inv_start:
  assumes "flood_inv grid sz t f start np q v"
  shows "getIndex (px start) (py start) (width sz) \<in> v \<or> start \<in> set q"
  using assms unfolding flood_inv_def by (elim conjE)

lemma flood_inv_done:
  assumes "flood_inv grid sz t f start np [] v" "inBounds sz p"
  shows "js_get np (getIndex (px p) (py p) (width sz)) =
    (if reach4 grid sz t start p then Some f
     else js_get grid (getIndex (px p) (py p) (width sz)))"
proof -
  have st: "getIndex (px start) (py start) (width sz) \<in> v"
    using flood_inv_start [OF assms(1)] by simp
  have complete: "reach4 grid sz t start a \<Longrightarrow> getIndex (px a) (py a) (width sz) \<in> v" for a
  proof (induction rule: reach4.induct)
    case reach4_start
    show ?case by (rule st)
  next
    case (reach4_step a a')
    have "inBounds sz a" using reach4_step.hyps(1) by (rule reach4_inBounds)
    moreover have "js_get grid (getIndex (px a) (py a) (width sz)) = Some t"
      using reach4_step.hyps(1) by (rule reach4_target)
    ultimately have "getIndex (px a') (py a') (width sz) \<in> v \<or> a' \<in> set []"
      using reach4_step.IH reach4_step.hyps(2,3)
      by (intro flood_inv_closed [OF assms(1)])
    then show ?case by simp
  qed
  note np = flood_inv_pixels(1) [OF assms(1), of "getIndex (px p) (py p) (width sz)"]
  show ?thesis
  proof (cases "reach4 grid sz t start p")
    case True
    then show ?thesis using np complete [OF True] reach4_target [OF True] by simp
  next
    case False
    have "\<not> (getIndex (px p) (py p) (width sz) \<in> v \<and>
        js_get grid (getIndex (px p) (py p) (width sz)) = Some t)"
    proof
      assume "getIndex (px p) (py p) (width sz) \<in> v \<and>
        js_get grid (getIndex (px p) (py p) (width sz)) = Some t"
      then have "reach4 grid sz t start p"
        using flood_inv_sound [OF assms(1,2)] by simp
      then show False using False by simp
    qed
    then have "js_get np (getIndex (px p) (py p) (width sz)) =
        js_get grid (getIndex (px p) (py p) (width sz))"
      unfolding np by (rule if_not_P)
    then show ?thesis using False by simp
  qed
qed

lemma floodLoop_reachable:
  assumes "flood_inv grid sz t f start np q v"
  shows "length (floodLoop (width sz) (height sz) t f np q v) = length grid \<and>
    (\<forall>p. inBounds sz p \<longrightarrow>
       js_get (floodLoop (width sz) (height sz) t f np q v)
         (getIndex (px p) (py p) (width sz)) =
       (if reach4 grid sz t start p then Some f
        else js_get grid (getIndex (px p) (py p) (width sz))))"
proof -
  define P where "P = (\<lambda>r. length r = length grid \<and>
    (\<forall>p. inBounds sz p \<longrightarrow>
       js_get r (getIndex (px p) (py p) (width sz)) =
       (if reach4 grid sz t start p then Some f
        else js_get grid (getIndex (px p) (py p) (width sz)))))"
  have "P (floodLoop (width sz) (height sz) t f np q v)"
  proof (rule floodLoop_rule [where I = "flood_inv grid sz t f start" and P = P,
        OF _ _ _ _ assms])
    fix np v
    assume "flood_inv grid sz t f start np [] v"
    then show "P np"
      unfolding P_def using flood_inv_done flood_inv_pixels(2) by blast
  qed (rule flood_inv_visited flood_inv_skip flood_inv_fill; assumption)+
  then show ?thesis by (simp add: P_def)
qed

text \<open>
  Claim C1. On a grid of \<open>width * height\<close> pixels, from an in-bounds \<open>start\<close> that holds
  \<open>targetColor\<close>, with another \<open>fillColor\<close>, \<open>floodFill\<close> returns a grid of the same
  length in which a pixel holds \<open>fillColor\<close> if it is reachable from \<open>start\<close> by steps
  to the north, east, south or west through pixels of \<open>targetColor\<close>, and holds what it
  held otherwise. A uniform 3x3 grid filled from its centre is filled whole; a pixel of
  the target colour that touches the filled region only diagonally keeps its colour.
\<close>

theorem floodFill_reachable:
  assumes "int (length grid) = width sz * height sz"
    and "inBounds sz start"
    and "js_get grid (getIndex (px start) (py start) (width sz)) = Some targetColor"
    and "fillColor \<noteq> targetColor"
  shows "length (floodFill grid start targetColor fillColor sz) = length grid \<and>
    (\<forall>p. inBounds sz p \<longrightarrow>
       js_get (floodFill grid start targetColor fillColor sz)
         (getIndex (px p) (py p) (width sz)) =
       (if reach4 grid sz targetColor start p then Some fillColor
        else js_get grid (getIndex (px p) (py p) (width sz)))) \<and>
    (A \<noteq> B \<longrightarrow>
       floodFill (replicate 9 (Some A)) \<lparr>px = 1, py = 1\<rparr> A B \<lparr>width = 3, height = 3\<rparr> =
         replicate 9 (Some B)) \<and>
    (A \<noteq> B \<and> C \<noteq> A \<longrightarrow>
       floodFill [Some A, Some C, Some C,
                  Some A, Some C, Some A,
                  Some A, Some A, Some C] \<lparr>px = 0, py = 0\<rparr> A B \<lparr>width = 3, height = 3\<rparr> =
         [Some B, Some C, Some C,
          Some B, Some C, Some A,
          Some B, Some B, Some C])"
proof (intro conjI impI)
  define idx where "idx = getIndex (px start) (py start) (width sz)"
  have r: "0 \<le> idx \<and> idx < int (length grid)"
    using assms(3) unfolding idx_def by (rule js_get_Some_range)
  have "floodFill grid start targetColor fillColor sz =
      floodLoop (width sz) (height sz) targetColor fillColor grid [start] {}"
    using r assms(3,4) by (simp add: floodFill_def Let_def idx_def [symmetric])
  moreover note floodLoop_reachable
      [OF flood_inv_init [OF assms(2), where grid = grid and t = targetColor and f = fillColor]]
  ultimately show "length (floodFill grid start targetColor fillColor sz) = length grid"
    and "\<forall>p. inBounds sz p \<longrightarrow>
       js_get (floodFill grid start targetColor fillColor sz)
         (getIndex (px p) (py p) (width sz)) =
       (if reach4 grid sz targetColor start p then Some fillColor
        else js_get grid (getIndex (px p) (py p) (width sz)))"
    by simp_all
next
  assume "A \<noteq> B"
  then show "floodFill (replicate 9 (Some A)) \<lparr>px = 1, py = 1\<rparr> A B
      \<lparr>width = 3, height = 3\<rparr> = replicate 9 (Some B)"
    by (simp add: floodFill_def floodLoop.simps getIndex_def js_get_def js_set_def Let_def
        numeral_eq_Suc)
next
  assume "A \<noteq> B \<and> C \<noteq> A"
  then show "floodFill [Some A, Some C, Some C,
                  Some A, Some C, Some A,
                  Some A, Some A, Some C] \<lparr>px = 0, py = 0\<rparr> A B \<lparr>width = 3, height = 3\<rparr> =
         [Some B, Some C, Some C,
          Some B, Some C, Some A,
          Some B, Some B, Some C]"
    by (simp add: floodFill_def floodLoop.simps getIndex_def js_get_def js_set_def Let_def)
qed

theorem floodFill_reachable_witness:
  "int (length [Some ''#ffffff'', Some ''#000000'', Some ''#000000'',
                Some ''#ffffff'', Some ''#000000'', Some ''#ffffff'',
                Some ''#ffffff'', Some ''#ffffff'', Some ''#000000'']) =
     width \<lparr>width = 3, height = 3\<rparr> * height \<lparr>width = 3, height = 3\<rparr> \<and>
   inBounds \<lparr>width = 3, height = 3\<rparr> \<lparr>px = 0, py = 0\<rparr> \<and>
   js_get [Some ''#ffffff'', Some ''#000000'', Some ''#000000'',
           Some ''#ffffff'', Some ''#000000'', Some ''#ffffff'',
           Some ''#ffffff'', Some ''#ffffff'', Some ''#000000''] (getIndex 0 0 3) =
     Some ''#ffffff'' \<and>
   ''#ff0000'' \<noteq> ''#ffffff'' \<and>
   reach4 [Some ''#ffffff'', Some ''#000000'', Some ''#000000'',
           Some ''#ffffff'', Some ''#000000'', Some ''#ffffff'',
           Some ''#ffffff'', Some ''#ffffff'', Some ''#000000'']
     \<lparr>width = 3, height = 3\<rparr> ''#ffffff'' \<lparr>px = 0, py = 0\<rparr> \<lparr>px = 0, py = 1\<rparr> \<and>
   \<not> reach4 [Some ''#ffffff'', Some ''#000000'', Some ''#000000'',
           Some ''#ffffff'', Some ''#000000'', Some ''#ffffff'',
           Some ''#ffffff'', Some ''#ffffff'', Some ''#000000'']
     \<lparr>width = 3, height = 3\<rparr> ''#ffffff'' \<lparr>px = 0, py = 0\<rparr> \<lparr>px = 2, py = 1\<rparr>"
proof -
  define g :: PixelGrid where "g =
    [Some ''#ffffff'', Some ''#000000'', Some ''#000000'',
     Some ''#ffffff'', Some ''#000000'', Some ''#ffffff'',
     Some ''#ffffff'', Some ''#ffffff'', Some ''#000000'']"
  define sz where "sz = \<lparr>width = 3, height = 3\<rparr>"
  define res where "res = floodFill g \<lparr>px = 0, py = 0\<rparr> ''#ffffff'' ''#ff0000'' sz"
  have h1: "int (length g) = width sz * height sz" by (simp add: g_def sz_def)
  have h2: "inBounds sz \<lparr>px = 0, py = 0\<rparr>" by (simp add: inBounds_def sz_def)
  have h3: "js_get g (getIndex (px \<lparr>px = 0, py = 0\<rparr>) (py \<lparr>px = 0, py = 0\<rparr>) (width sz)) =
      Some ''#ffffff''"
    by (simp add: g_def sz_def getIndex_def js_get_def)
  have h4: "''#ff0000'' \<noteq> ''#ffffff''" by simp
  have e: "res =
    [Some ''#ff0000'', Some ''#000000'', Some ''#000000'',
     Some ''#ff0000'', Some ''#000000'', Some ''#ffffff'',
     Some ''#ff0000'', Some ''#ff0000'', Some ''#000000'']"
    unfolding res_def g_def sz_def
    by (simp add: floodFill_def floodLoop.simps getIndex_def js_get_def js_set_def Let_def)
  have t: "\<forall>p. inBounds sz p \<longrightarrow>
       js_get res (getIndex (px p) (py p) (width sz)) =
       (if reach4 g sz ''#ffffff'' \<lparr>px = 0, py = 0\<rparr> p then Some ''#ff0000''
        else js_get g (getIndex (px p) (py p) (width sz)))"
    using floodFill_reachable [OF h1 h2 h3 h4] unfolding res_def by blast
  have a: "js_get res (getIndex 0 1 3) =
       (if reach4 g sz ''#ffffff'' \<lparr>px = 0, py = 0\<rparr> \<lparr>px = 0, py = 1\<rparr> then Some ''#ff0000''
        else js_get g (getIndex 0 1 3))"
    using t [rule_format, of "\<lparr>px = 0, py = 1\<rparr>"] by (simp add: inBounds_def sz_def)
  have r1: "reach4 g sz ''#ffffff'' \<lparr>px = 0, py = 0\<rparr> \<lparr>px = 0, py = 1\<rparr>"
  proof (rule ccontr)
    assume "\<not> reach4 g sz ''#ffffff'' \<lparr>px = 0, py = 0\<rparr> \<lparr>px = 0, py = 1\<rparr>"
    then have "js_get res (getIndex 0 1 3) = js_get g (getIndex 0 1 3)" using a by simp
    then show False by (simp add: e g_def getIndex_def js_get_def)
  qed
  have b: "js_get res (getIndex 2 1 3) =
       (if reach4 g sz ''#ffffff'' \<lparr>px = 0, py = 0\<rparr> \<lparr>px = 2, py = 1\<rparr> then Some ''#ff0000''
        else js_get g (getIndex 2 1 3))"
    using t [rule_format, of "\<lparr>px = 2, py = 1\<rparr>"] by (simp add: inBounds_def sz_def)
  have r2: "\<not> reach4 g sz ''#ffffff'' \<lparr>px = 0, py = 0\<rparr> \<lparr>px = 2, py = 1\<rparr>"
  proof
    assume "reach4 g sz ''#ffffff'' \<lparr>px = 0, py = 0\<rparr> \<lparr>px = 2, py = 1\<rparr>"
    then have "js_get res (getIndex 2 1 3) = Some ''#ff0000''" using b by simp
    then show False by (simp add: e getIndex_def js_get_def)
  qed
  show ?thesis using h1 h2 h3 h4 r1 r2 unfolding g_def sz_def by simp
qed

theorem floodFill_frame_witness:
  "length (floodFill [Some ''#ffffff'', Some ''#000000''] \<lparr>px = 0, py = 0\<rparr>
      ''#ffffff'' ''#ff0000'' \<lparr>width = 2, height = 1\<rparr>) = 2 \<and>
   js_get (floodFill [Some ''#ffffff'', Some ''#000000''] \<lparr>px = 0, py = 0\<rparr>
      ''#ffffff'' ''#ff0000'' \<lparr>width = 2, height = 1\<rparr>) 1 = Some ''#000000''"
  using floodFill_frame [of "[Some ''#ffffff'', Some ''#000000'']" "\<lparr>px = 0, py = 0\<rparr>"
      "''#ffffff''" "''#ff0000''" "\<lparr>width = 2, height = 1\<rparr>"]
  by (auto simp: js_get_def dest!: spec [of _ 1])

subsection \<open>The guards of the fill\<close>

lemma floodFill_noop:
  assumes "getIndex (px start) (py start) (width sz) < 0 \<or>
      int (length grid) \<le> getIndex (px start) (py start) (width sz) \<or>
      js_get grid (getIndex (px start) (py start) (width sz)) = Some fillColor \<or>
      js_get grid (getIndex (px start) (py start) (width sz)) \<noteq> Some targetColor"
  shows "floodFill grid start targetColor fillColor sz = grid"
  using assms by (auto simp: floodFill_def Let_def)

text \<open>
  Claim C2 is what the source intends, and the source misses a case of it: the guard
  tests the index \<open>y * width + x\<close>, so a start left or right of the grid, whose index
  falls on a pixel of a neighbouring row, is filled from. Here the start (-1, 1) is out
  of bounds on a white 3x3 grid and the whole grid is painted.
\<close>

theorem floodFill_start_left_of_grid:
  "\<not> inBounds \<lparr>width = 3, height = 3\<rparr> \<lparr>px = - 1, py = 1\<rparr> \<and>
   floodFill (replicate 9 (Some ''#ffffff'')) \<lparr>px = - 1, py = 1\<rparr> ''#ffffff'' ''#000000''
     \<lparr>width = 3, height = 3\<rparr> = replicate 9 (Some ''#000000'')"
  by (simp add: inBounds_def floodFill_def floodLoop.simps getIndex_def js_get_def js_set_def
      Let_def numeral_eq_Suc)

end
